theory Spec2Isabelle
  imports Complex_Main
begin

section \<open>Values, objects and the application state\<close>

text \<open>
  The program is \<^verbatim>\<open>src/index.js\<close>: the class \<^verbatim>\<open>App\<close>. JavaScript numbers are
  modelled as exact reals (no rounding, no NaN), \<^verbatim>\<open>gridSize\<close>, a number of planes, as a
  natural number. Objects live in an explicit store: a reference is an address, and the
  store maps every allocated address to the object there, so that sharing between the
  cache, the scene graph and the interactable registry is visible.
\<close>

type_synonym ref = nat
type_synonym vec3 = "real \<times> real \<times> real"

datatype euler = Euler real real real

text \<open>\<^verbatim>\<open>new THREE.Matrix4().makeRotationFromEuler(rotation).setPosition(position)\<close>,
  kept as the rotation and the position it is made from.\<close>

datatype matrix4 = Matrix4 euler vec3

text \<open>The constructor argument of \<^verbatim>\<open>App\<close>.\<close>

record options =
  gridSize :: nat
  gridOffset :: real
  rectWidth :: real
  rectBackgroundColor :: string
  textColor :: string
  highlightedTextColor :: string
  fontSize :: real
  lineHeight :: real
  spaceWidth :: real
  fontUrl :: string
  textContent :: string

text \<open>What the text library measured for a mesh: \<^verbatim>\<open>textRenderInfo.blockBounds\<close> may be
  missing, and so may \<^verbatim>\<open>textRenderInfo\<close> itself.\<close>

record render_info =
  blockBounds :: "real list option"

text \<open>A troika \<^verbatim>\<open>Text\<close> object, with the fields the program writes and reads.\<close>

record text_mesh =
  mesh_text :: string
  mesh_fontSize :: real
  mesh_font :: string
  mesh_maxWidth :: real
  mesh_color :: string
  mesh_position :: vec3
  textRenderInfo :: "render_info option"

record group =
  children :: "ref list"
  group_position :: vec3
  group_rotation :: euler

record instanced_mesh =
  inst_count :: nat
  instanceMatrix :: "nat \<rightharpoonup> matrix4"

datatype obj = Text text_mesh | Group group | InstancedMesh instanced_mesh

text \<open>The value of \<^verbatim>\<open>#highlightedTextMesh\<close>: the field is declared without an initial
  value, so it starts as \<^verbatim>\<open>undefined\<close>; \<^verbatim>\<open>hovered\<close> is an object or \<^verbatim>\<open>null\<close>.\<close>

datatype jsref = Undefined | Null | Obj ref

text \<open>The calls into the libraries that the properties below speak of, in the order they
  are made.\<close>

datatype event =
    Construct ref
  | CloneEv ref ref
  | SetColor ref string
  | Sync ref
  | SetCursor string
  | SetMatrixAt nat matrix4

record app =
  heap :: "ref \<rightharpoonup> obj"
  nextRef :: ref
  scene :: "ref list"
  textMeshCache :: "(string \<times> ref) list"
  highlightedTextMesh :: jsref
  interactableMeshes :: "ref list"
  cursor :: string
  randomCalls :: nat
  trace :: "event list"

definition initial_app :: app where
  "initial_app =
     \<lparr>heap = Map.empty, nextRef = 0, scene = [], textMeshCache = [],
      highlightedTextMesh = Undefined, interactableMeshes = [], cursor = [],
      randomCalls = 0, trace = []\<rparr>"

subsection \<open>Store operations\<close>

definition alloc :: "obj \<Rightarrow> app \<Rightarrow> ref \<times> app" where
  "alloc ob st =
     (nextRef st, st\<lparr>heap := (heap st)(nextRef st \<mapsto> ob), nextRef := Suc (nextRef st)\<rparr>)"

text \<open>\<^verbatim>\<open>Text.clone()\<close>: a new object with the copied properties of the source; the clone has
  not been synced, so it has no render info of its own yet. The program clones text
  meshes only.\<close>

fun clone_obj :: "obj \<Rightarrow> obj" where
  "clone_obj (Text m) = Text (m\<lparr>textRenderInfo := None\<rparr>)"
| "clone_obj ob = ob"

definition clone :: "ref \<Rightarrow> app \<Rightarrow> ref \<times> app" where
  "clone r st =
     (nextRef st,
      st\<lparr>heap := (heap st)(nextRef st := map_option clone_obj (heap st r)),
         nextRef := Suc (nextRef st),
         trace := trace st @ [CloneEv r (nextRef st)]\<rparr>)"

text \<open>\<^verbatim>\<open>mesh.position.set(x, y, z)\<close> on a text mesh.\<close>

fun obj_set_position :: "vec3 \<Rightarrow> obj \<Rightarrow> obj" where
  "obj_set_position v (Text m) = Text (m\<lparr>mesh_position := v\<rparr>)"
| "obj_set_position v ob = ob"

definition set_position :: "ref \<Rightarrow> vec3 \<Rightarrow> app \<Rightarrow> app" where
  "set_position r v st = st\<lparr>heap := (heap st)(r := map_option (obj_set_position v) (heap st r))\<rparr>"

text \<open>\<^verbatim>\<open>group.add(c1, ...)\<close>; every object the program adds has no parent yet.\<close>

fun obj_add :: "ref list \<Rightarrow> obj \<Rightarrow> obj" where
  "obj_add cs (Group gr) = Group (gr\<lparr>children := children gr @ cs\<rparr>)"
| "obj_add cs ob = ob"

definition group_add :: "ref \<Rightarrow> ref list \<Rightarrow> app \<Rightarrow> app" where
  "group_add g cs st = st\<lparr>heap := (heap st)(g := map_option (obj_add cs) (heap st g))\<rparr>"

subsection \<open>Reading the store\<close>

fun obj_children :: "obj \<Rightarrow> ref list" where
  "obj_children (Group gr) = children gr"
| "obj_children ob = []"

fun obj_is_group :: "obj \<Rightarrow> bool" where
  "obj_is_group (Group gr) = True"
| "obj_is_group ob = False"

fun obj_is_text :: "obj \<Rightarrow> bool" where
  "obj_is_text (Text m) = True"
| "obj_is_text ob = False"

fun obj_position :: "obj \<Rightarrow> vec3" where
  "obj_position (Text m) = mesh_position m"
| "obj_position ob = (0, 0, 0)"

definition kids :: "app \<Rightarrow> ref \<Rightarrow> ref list" where
  "kids st g = (case heap st g of Some ob \<Rightarrow> obj_children ob | None \<Rightarrow> [])"

definition is_group :: "app \<Rightarrow> ref \<Rightarrow> bool" where
  "is_group st r = (case heap st r of Some ob \<Rightarrow> obj_is_group ob | None \<Rightarrow> False)"

definition is_text :: "app \<Rightarrow> ref \<Rightarrow> bool" where
  "is_text st r = (case heap st r of Some ob \<Rightarrow> obj_is_text ob | None \<Rightarrow> False)"

definition position_of :: "app \<Rightarrow> ref \<Rightarrow> vec3" where
  "position_of st r = (case heap st r of Some ob \<Rightarrow> obj_position ob | None \<Rightarrow> (0, 0, 0))"

section \<open>Line-wrapping layout\<close>

text \<open>\<^verbatim>\<open>bounds?.[i]\<close> on an array: \<^verbatim>\<open>undefined\<close> out of range.\<close>

definition js_index :: "real list \<Rightarrow> nat \<Rightarrow> real option" where
  "js_index xs i = (if i < length xs then Some (xs ! i) else None)"

text \<open>\<^verbatim>\<open>v || 0\<close> on a number or \<^verbatim>\<open>undefined\<close>.\<close>

definition or_zero :: "real option \<Rightarrow> real" where
  "or_zero v = (case v of None \<Rightarrow> 0 | Some w \<Rightarrow> if w = 0 then 0 else w)"

text \<open>\<^verbatim>\<open>mesh.textRenderInfo?.blockBounds?.[2] || 0\<close>\<close>

fun obj_bound :: "obj \<Rightarrow> real option" where
  "obj_bound (Text m) =
     (case textRenderInfo m of
        None \<Rightarrow> None
      | Some ri \<Rightarrow> (case blockBounds ri of None \<Rightarrow> None | Some bb \<Rightarrow> js_index bb 2))"
| "obj_bound ob = None"

definition measured_bound :: "app \<Rightarrow> ref \<Rightarrow> real option" where
  "measured_bound st r = (case heap st r of Some ob \<Rightarrow> obj_bound ob | None \<Rightarrow> None)"

definition mesh_width :: "app \<Rightarrow> ref \<Rightarrow> real" where
  "mesh_width st r = or_zero (measured_bound st r)"

text \<open>The body of the loop after both checks: lines 266 to 273.\<close>

definition place :: "ref \<Rightarrow> ref \<Rightarrow> ref \<Rightarrow> real \<Rightarrow> real \<Rightarrow> app \<Rightarrow> app" where
  "place mesh frontGroup backGroup x y st =
     (let st1 = set_position mesh (x, y, 0) st;
          (backMesh, st2) = clone mesh st1;
          st3 = set_position backMesh (x, y, 0) st2;
          st4 = group_add frontGroup [mesh] st3;
          st5 = group_add backGroup [backMesh] st4
      in st5\<lparr>interactableMeshes := interactableMeshes st5 @ [mesh, backMesh]\<rparr>)"

text \<open>The \<^verbatim>\<open>for (const mesh of meshes)\<close> loop with its cursor \<open>(x, y)\<close>; \<^verbatim>\<open>break\<close> returns
  the state as it is.\<close>

fun layout_loop ::
  "options \<Rightarrow> ref list \<Rightarrow> ref \<Rightarrow> ref \<Rightarrow> real \<Rightarrow> real \<Rightarrow> app \<Rightarrow> app" where
  "layout_loop opts [] frontGroup backGroup x y st = st"
| "layout_loop opts (mesh # meshes) frontGroup backGroup x y st =
     (let width = mesh_width st mesh;
          x1 = (if x + width > rectWidth opts then 0 else x);
          y1 = (if x + width > rectWidth opts then y - fontSize opts * lineHeight opts else y)
      in if y1 - fontSize opts * lineHeight opts < - rectWidth opts then st
         else layout_loop opts meshes frontGroup backGroup
                (x1 + width + spaceWidth opts) y1 (place mesh frontGroup backGroup x1 y1 st))"

definition layoutTextMeshes :: "options \<Rightarrow> ref list \<Rightarrow> ref \<Rightarrow> ref \<Rightarrow> app \<Rightarrow> app" where
  "layoutTextMeshes opts meshes frontGroup backGroup st =
     layout_loop opts meshes frontGroup backGroup 0 0 st"

section \<open>Hover highlighting\<close>

text \<open>\<^verbatim>\<open>v?.text\<close> as a condition: the value is an object with a non-empty \<^verbatim>\<open>text\<close>.\<close>

fun obj_has_text :: "obj \<Rightarrow> bool" where
  "obj_has_text (Text m) = (mesh_text m \<noteq> [])"
| "obj_has_text ob = False"

definition has_text :: "app \<Rightarrow> jsref \<Rightarrow> bool" where
  "has_text st v =
     (case v of
        Obj r \<Rightarrow> (case heap st r of Some ob \<Rightarrow> obj_has_text ob | None \<Rightarrow> False)
      | _ \<Rightarrow> False)"

fun obj_set_color :: "string \<Rightarrow> obj \<Rightarrow> obj" where
  "obj_set_color c (Text m) = Text (m\<lparr>mesh_color := c\<rparr>)"
| "obj_set_color c ob = ob"

definition set_color :: "ref \<Rightarrow> string \<Rightarrow> app \<Rightarrow> app" where
  "set_color r c st =
     st\<lparr>heap := (heap st)(r := map_option (obj_set_color c) (heap st r)),
        trace := trace st @ [SetColor r c]\<rparr>"

text \<open>A call of \<^verbatim>\<open>mesh.sync(...)\<close>; the measurement arrives later.\<close>

definition sync_call :: "ref \<Rightarrow> app \<Rightarrow> app" where
  "sync_call r st = st\<lparr>trace := trace st @ [Sync r]\<rparr>"

definition set_cursor :: "string \<Rightarrow> app \<Rightarrow> app" where
  "set_cursor c st = st\<lparr>cursor := c, trace := trace st @ [SetCursor c]\<rparr>"

definition resetHighlight :: "options \<Rightarrow> app \<Rightarrow> app" where
  "resetHighlight opts st =
     set_cursor ''auto''
       (case highlightedTextMesh st of
          Obj r \<Rightarrow>
            if has_text st (Obj r) then sync_call r (set_color r (textColor opts) st) else st
        | _ \<Rightarrow> st)"

definition applyHighlight :: "jsref \<Rightarrow> string \<Rightarrow> app \<Rightarrow> app" where
  "applyHighlight textMesh color st =
     (case textMesh of
        Obj r \<Rightarrow>
          if has_text st (Obj r)
          then set_cursor ''pointer'' (sync_call r (set_color r color st))
          else st
      | _ \<Rightarrow> st)"

text \<open>\<^verbatim>\<open>intersects[0]?.object || null\<close>, on the objects of the raycaster's intersections,
  nearest first.\<close>

definition hovered_of :: "ref list \<Rightarrow> jsref" where
  "hovered_of intersects = (case intersects of [] \<Rightarrow> Null | r # rs \<Rightarrow> Obj r)"

text \<open>One frame. The raycaster's answer for the frame is the argument \<open>intersects\<close>.\<close>

definition processIntersections :: "options \<Rightarrow> ref list \<Rightarrow> app \<Rightarrow> app" where
  "processIntersections opts intersects st =
     (let hovered = hovered_of intersects
      in if highlightedTextMesh st = hovered then st
         else (applyHighlight hovered (highlightedTextColor opts) (resetHighlight opts st))
                \<lparr>highlightedTextMesh := hovered\<rparr>)"

section \<open>Text meshes and their cache\<close>

text \<open>\<^verbatim>\<open>text.split(' ')\<close>\<close>

fun split_space :: "string \<Rightarrow> string list" where
  "split_space [] = [[]]"
| "split_space (c # cs) =
     (if c = CHR '' '' then [] # split_space cs
      else (case split_space cs of w # ws \<Rightarrow> (c # w) # ws | [] \<Rightarrow> [[c]]))"

text \<open>\<^verbatim>\<open>Map.prototype.set\<close> on a map kept in insertion order.\<close>

fun cache_set :: "string \<Rightarrow> ref \<Rightarrow> (string \<times> ref) list \<Rightarrow> (string \<times> ref) list" where
  "cache_set k v [] = [(k, v)]"
| "cache_set k v (e # es) = (if fst e = k then (k, v) # es else e # cache_set k v es)"

text \<open>\<^verbatim>\<open>new Text()\<close> followed by the five assignments of lines 235 to 239.\<close>

definition new_text :: "options \<Rightarrow> string \<Rightarrow> app \<Rightarrow> ref \<times> app" where
  "new_text opts word st =
     (let (mesh, st1) =
            alloc (Text \<lparr>mesh_text = word, mesh_fontSize = fontSize opts,
                         mesh_font = fontUrl opts, mesh_maxWidth = rectWidth opts,
                         mesh_color = textColor opts, mesh_position = (0, 0, 0),
                         textRenderInfo = None\<rparr>) st
      in (mesh, st1\<lparr>trace := trace st1 @ [Construct mesh]\<rparr>))"

text \<open>The callback of \<^verbatim>\<open>words.map\<close>.\<close>

definition generate_mesh :: "options \<Rightarrow> string \<Rightarrow> app \<Rightarrow> ref \<times> app" where
  "generate_mesh opts word st =
     (case map_of (textMeshCache st) word of
        Some cached \<Rightarrow> clone cached st
      | None \<Rightarrow>
          (let (mesh, st1) = new_text opts word st
           in (mesh, st1\<lparr>textMeshCache := cache_set word mesh (textMeshCache st1)\<rparr>)))"

fun map_words :: "options \<Rightarrow> string list \<Rightarrow> app \<Rightarrow> ref list \<times> app" where
  "map_words opts [] st = ([], st)"
| "map_words opts (word # ws) st =
     (let (mesh, st1) = generate_mesh opts word st;
          (meshes, st2) = map_words opts ws st1
      in (mesh # meshes, st2))"

text \<open>Up to the returned promise: every mesh has its \<^verbatim>\<open>sync\<close> called.\<close>

definition generateTextMeshes :: "options \<Rightarrow> app \<Rightarrow> ref list \<times> app" where
  "generateTextMeshes opts st =
     (let (meshes, st1) = map_words opts (split_space (textContent opts)) st
      in (meshes, fold sync_call meshes st1))"

text \<open>The completion of a sync: the library stores what it measured for the mesh.\<close>

fun obj_set_info :: "render_info option \<Rightarrow> obj \<Rightarrow> obj" where
  "obj_set_info i (Text m) = Text (m\<lparr>textRenderInfo := i\<rparr>)"
| "obj_set_info i ob = ob"

definition sync_done :: "(ref \<Rightarrow> render_info option) \<Rightarrow> ref \<Rightarrow> app \<Rightarrow> app" where
  "sync_done measured r st =
     st\<lparr>heap := (heap st)(r := map_option (obj_set_info (measured r)) (heap st r))\<rparr>"

section \<open>Scene assembly\<close>

text \<open>
  An \<^verbatim>\<open>async\<close> function runs to its first \<^verbatim>\<open>await\<close> when it is called, and the rest runs
  after the awaited promise has resolved. \<^verbatim>\<open>#createTextMeshes\<close> is therefore two steps: the
  first one, which also makes the call of \<^verbatim>\<open>#generateTextMeshes\<close>, inside the three loops;
  the second one, from the layout on, after the loops, once the meshes of the cell are
  synced. Continuations are run in the order of the calls. The groups are allocated with
  the position and rotation that lines 210 to 215 give them.
\<close>

record pending =
  p_group :: ref
  p_front :: ref
  p_back :: ref
  p_meshes :: "ref list"

definition new_group :: "vec3 \<Rightarrow> euler \<Rightarrow> app \<Rightarrow> ref \<times> app" where
  "new_group pos rot st =
     alloc (Group \<lparr>children = [], group_position = pos, group_rotation = rot\<rparr>) st"

definition createTextMeshes_begin :: "options \<Rightarrow> vec3 \<Rightarrow> euler \<Rightarrow> app \<Rightarrow> pending \<times> app" where
  "createTextMeshes_begin opts position rotation st =
     (let (group, st1) = new_group position rotation st;
          (frontGroup, st2) =
             new_group (- rectWidth opts * 0.5, rectWidth opts * 0.5, 0.001) (Euler 0 0 0) st1;
          (backGroup, st3) =
             new_group (rectWidth opts * 0.5, rectWidth opts * 0.5, - 0.001) (Euler 0 pi 0) st2;
          (textMeshes, st4) = generateTextMeshes opts st3
      in (\<lparr>p_group = group, p_front = frontGroup, p_back = backGroup, p_meshes = textMeshes\<rparr>,
          st4))"

definition createTextMeshes_resume ::
  "options \<Rightarrow> (ref \<Rightarrow> render_info option) \<Rightarrow> pending \<Rightarrow> app \<Rightarrow> ref \<times> app" where
  "createTextMeshes_resume opts measured p st =
     (let st1 = fold (sync_done measured) (p_meshes p) st;
          st2 = layoutTextMeshes opts (p_meshes p) (p_front p) (p_back p) st1
      in (p_group p, group_add (p_group p) [p_front p, p_back p] st2))"

text \<open>\<^verbatim>\<open>Math.random()\<close>: the next value of the source \<open>rnd\<close>.\<close>

definition math_random :: "(nat \<Rightarrow> real) \<Rightarrow> app \<Rightarrow> real \<times> app" where
  "math_random rnd st = (rnd (randomCalls st), st\<lparr>randomCalls := Suc (randomCalls st)\<rparr>)"

text \<open>\<^verbatim>\<open>planeMesh.setMatrixAt(index, matrix)\<close>: a write past the instance buffer is lost.\<close>

fun obj_setMatrixAt :: "nat \<Rightarrow> matrix4 \<Rightarrow> obj \<Rightarrow> obj" where
  "obj_setMatrixAt i m (InstancedMesh im) =
     InstancedMesh (if i < inst_count im then im\<lparr>instanceMatrix := (instanceMatrix im)(i \<mapsto> m)\<rparr>
                    else im)"
| "obj_setMatrixAt i m ob = ob"

definition setMatrixAt :: "ref \<Rightarrow> nat \<Rightarrow> matrix4 \<Rightarrow> app \<Rightarrow> app" where
  "setMatrixAt r i m st =
     st\<lparr>heap := (heap st)(r := map_option (obj_setMatrixAt i m) (heap st r)),
        trace := trace st @ [SetMatrixAt i m]\<rparr>"

text \<open>The state of the three loops: \<^verbatim>\<open>instanceIndex\<close>, \<^verbatim>\<open>syncPromises\<close> and the application.\<close>

type_synonym cube_state = "nat \<times> pending list \<times> app"

definition cell_position :: "options \<Rightarrow> nat \<Rightarrow> nat \<Rightarrow> nat \<Rightarrow> real \<Rightarrow> vec3" where
  "cell_position opts x y z positionOffset =
     (let cellSize = rectWidth opts + gridOffset opts
      in (real x * cellSize + positionOffset, real y * cellSize + positionOffset,
          real z * cellSize + positionOffset))"

definition cell_body ::
  "options \<Rightarrow> (nat \<Rightarrow> real) \<Rightarrow> ref \<Rightarrow> nat \<Rightarrow> nat \<Rightarrow> nat \<Rightarrow> cube_state \<Rightarrow> cube_state" where
  "cell_body opts rnd planeMesh x y z s =
     (case s of (instanceIndex, syncPromises, st) \<Rightarrow>
        (let cellSize = rectWidth opts + gridOffset opts;
             (r1, st1) = math_random rnd st;
             positionOffset = r1 * cellSize * 0.5;
             (r2, st2) = math_random rnd st1;
             rotationAngle = r2 * pi * 2;
             position = cell_position opts x y z positionOffset;
             rotation = Euler rotationAngle rotationAngle rotationAngle;
             matrix = Matrix4 rotation position;
             st3 = setMatrixAt planeMesh instanceIndex matrix st2;
             (textMeshPromise, st4) = createTextMeshes_begin opts position rotation st3
         in (Suc instanceIndex, syncPromises @ [textMeshPromise], st4)))"

text \<open>\<^verbatim>\<open>for (let i = i0; i < n; i++) body\<close>\<close>

function for_loop :: "nat \<Rightarrow> nat \<Rightarrow> (nat \<Rightarrow> 's \<Rightarrow> 's) \<Rightarrow> 's \<Rightarrow> 's" where
  "for_loop i n body s = (if i < n then for_loop (Suc i) n body (body i s) else s)"
  by pat_completeness auto
termination
  by (relation "measure (\<lambda>(i, n, body, s). n - i)") auto

declare for_loop.simps [simp del]

definition cube_loops :: "options \<Rightarrow> (nat \<Rightarrow> real) \<Rightarrow> ref \<Rightarrow> cube_state \<Rightarrow> cube_state" where
  "cube_loops opts rnd planeMesh s =
     for_loop 0 (gridSize opts) (\<lambda>x.
       for_loop 0 (gridSize opts) (\<lambda>y.
         for_loop 0 (gridSize opts) (\<lambda>z. cell_body opts rnd planeMesh x y z))) s"

text \<open>The part of \<^verbatim>\<open>#createCubeOfPlanes\<close> that runs when it is called: lines 169 to 200. It
  gives the plane mesh, the text group, the pending cells and the state.\<close>

definition cube_begin ::
  "options \<Rightarrow> (nat \<Rightarrow> real) \<Rightarrow> app \<Rightarrow> ref \<times> ref \<times> pending list \<times> app" where
  "cube_begin opts rnd st =
     (let (planeMesh, st1) =
            alloc (InstancedMesh \<lparr>inst_count = gridSize opts ^ 3, instanceMatrix = Map.empty\<rparr>) st;
          (textGroup, st2) = new_group (0, 0, 0) (Euler 0 0 0) st1;
          (instanceIndex, syncPromises, st3) = cube_loops opts rnd planeMesh (0, [], st2);
          st4 = st3\<lparr>interactableMeshes := interactableMeshes st3 @ [planeMesh]\<rparr>
      in (planeMesh, textGroup, syncPromises,
          st4\<lparr>scene := scene st4 @ [planeMesh, textGroup]\<rparr>))"

text \<open>The continuations: each cell is laid out, and \<^verbatim>\<open>textGroup.add(group)\<close> follows.\<close>

fun resume_all ::
  "options \<Rightarrow> (ref \<Rightarrow> render_info option) \<Rightarrow> ref \<Rightarrow> pending list \<Rightarrow> app \<Rightarrow> ref list \<times> app"
  where
  "resume_all opts measured textGroup [] st = ([], st)"
| "resume_all opts measured textGroup (p # ps) st =
     (let (group, st1) = createTextMeshes_resume opts measured p st;
          st2 = group_add textGroup [group] st1;
          (groups, st3) = resume_all opts measured textGroup ps st2
      in (group # groups, st3))"

text \<open>\<^verbatim>\<open>#createCubeOfPlanes\<close> to the end of the promise it returns: the groups that
  \<^verbatim>\<open>Promise.all(syncPromises)\<close> resolves to, and the state.\<close>

definition createCubeOfPlanes ::
  "options \<Rightarrow> (nat \<Rightarrow> real) \<Rightarrow> (ref \<Rightarrow> render_info option) \<Rightarrow> app \<Rightarrow> ref list \<times> app" where
  "createCubeOfPlanes opts rnd measured st =
     (case cube_begin opts rnd st of
        (planeMesh, textGroup, syncPromises, st1) \<Rightarrow>
          resume_all opts measured textGroup syncPromises st1)"

section \<open>The interaction loop\<close>

text \<open>
  The animation loop starts when \<^verbatim>\<open>init\<close> has resolved, from the assembled scene; every
  frame runs \<^verbatim>\<open>#processIntersections\<close> on what the raycaster finds among the interactable
  meshes. \<^verbatim>\<open>Math.random()\<close> gives values in \<open>[0, 1)\<close>.
\<close>

definition unit_source :: "(nat \<Rightarrow> real) \<Rightarrow> bool" where
  "unit_source rnd = (\<forall>n. 0 \<le> rnd n \<and> rnd n < 1)"

inductive reachable :: "options \<Rightarrow> app \<Rightarrow> bool" for opts :: options where
  assembled:
    "unit_source rnd \<Longrightarrow> reachable opts (snd (createCubeOfPlanes opts rnd measured initial_app))"
| frame:
    "reachable opts st \<Longrightarrow> set intersects \<subseteq> set (interactableMeshes st) \<Longrightarrow>
     reachable opts (processIntersections opts intersects st)"

section \<open>Properties and concrete inputs\<close>

text \<open>A placed word: flat, not below the bound, and either inside the bound width or at the
  start of its line.\<close>

definition well_placed :: "options \<Rightarrow> app \<Rightarrow> ref \<Rightarrow> bool" where
  "well_placed opts st r =
     (case position_of st r of
        (px, py, pz) \<Rightarrow>
          pz = 0 \<and> - rectWidth opts \<le> py - fontSize opts * lineHeight opts \<and>
          (px = 0 \<or> px + mesh_width st r \<le> rectWidth opts))"

text \<open>The colour of an object, when it has one, and the meshes that carry a colour.\<close>

fun obj_color :: "obj \<Rightarrow> string option" where
  "obj_color (Text m) = Some (mesh_color m)"
| "obj_color ob = None"

definition carries :: "app \<Rightarrow> string \<Rightarrow> ref \<Rightarrow> bool" where
  "carries st c r = (case heap st r of Some ob \<Rightarrow> obj_color ob = Some c | None \<Rightarrow> False)"

text \<open>The calls that colour a value with a text: the assignment, then the sync.\<close>

definition color_events :: "app \<Rightarrow> jsref \<Rightarrow> string \<Rightarrow> event list" where
  "color_events st v c =
     (case v of Obj r \<Rightarrow> if has_text st v then [SetColor r c, Sync r] else [] | _ \<Rightarrow> [])"

fun is_construct :: "event \<Rightarrow> bool" where
  "is_construct (Construct r) = True"
| "is_construct e = False"

text \<open>No mesh carries the highlight colour but the highlighted one, which has a text.\<close>

definition highlight_inv :: "options \<Rightarrow> app \<Rightarrow> bool" where
  "highlight_inv opts st =
     (\<forall>r. carries st (highlightedTextColor opts) r \<longrightarrow>
          highlightedTextMesh st = Obj r \<and> has_text st (Obj r))"

text \<open>What the assembly keeps: every coloured object has the default text colour; the
  cache has one entry for a key, and as many entries as text meshes were constructed.\<close>

definition colors_default :: "options \<Rightarrow> app \<Rightarrow> bool" where
  "colors_default opts st =
     (\<forall>r ob. heap st r = Some ob \<longrightarrow>
             obj_color ob = None \<or> obj_color ob = Some (textColor opts))"

definition cache_inv :: "app \<Rightarrow> bool" where
  "cache_inv st =
     (distinct (map fst (textMeshCache st)) \<and>
      length (filter is_construct (trace st)) = length (textMeshCache st))"

definition cache_keys :: "app \<Rightarrow> string set" where
  "cache_keys st = set (map fst (textMeshCache st))"

definition assembly_step :: "options \<Rightarrow> app \<Rightarrow> app \<Rightarrow> bool" where
  "assembly_step opts st st' =
     (highlightedTextMesh st' = highlightedTextMesh st \<and>
      (colors_default opts st \<longrightarrow> colors_default opts st') \<and>
      (cache_inv st \<longrightarrow> cache_inv st') \<and>
      cache_keys st \<subseteq> cache_keys st' \<and>
      cache_keys st' \<subseteq> cache_keys st \<union> set (split_space (textContent opts)))"

text \<open>Once a cell has been begun, every word of the text has its cache entry.\<close>

definition cache_full :: "options \<Rightarrow> app \<Rightarrow> bool" where
  "cache_full opts st = (set (split_space (textContent opts)) \<subseteq> cache_keys st)"

text \<open>The instance buffer of an instanced mesh.\<close>

fun obj_instanced :: "obj \<Rightarrow> instanced_mesh option" where
  "obj_instanced (InstancedMesh im) = Some im"
| "obj_instanced ob = None"

definition plane_of :: "app \<Rightarrow> ref \<Rightarrow> instanced_mesh option" where
  "plane_of st r = (case heap st r of Some ob \<Rightarrow> obj_instanced ob | None \<Rightarrow> None)"

text \<open>The number of calls of \<^verbatim>\<open>setMatrixAt\<close> so far.\<close>

fun is_set_matrix :: "event \<Rightarrow> bool" where
  "is_set_matrix (SetMatrixAt i m) = True"
| "is_set_matrix e = False"

definition matrix_calls :: "app \<Rightarrow> nat" where
  "matrix_calls st = length (filter is_set_matrix (trace st))"

text \<open>A step that only allocates: the objects that exist stay as they are.\<close>

definition extends :: "app \<Rightarrow> app \<Rightarrow> bool" where
  "extends st st' =
     (nextRef st \<le> nextRef st' \<and> (\<forall>r<nextRef st. heap st' r = heap st r) \<and>
      interactableMeshes st' = interactableMeshes st \<and> scene st' = scene st \<and>
      matrix_calls st' = matrix_calls st)"

text \<open>A step under which the objects that exist keep their kind, instanced meshes their
  buffer, and the registry what it holds.\<close>

definition kinds_kept :: "app \<Rightarrow> app \<Rightarrow> bool" where
  "kinds_kept st st' =
     (nextRef st \<le> nextRef st' \<and>
      (\<forall>r<nextRef st. is_group st' r = is_group st r \<and> plane_of st' r = plane_of st r) \<and>
      set (interactableMeshes st) \<subseteq> set (interactableMeshes st') \<and> scene st' = scene st \<and>
      matrix_calls st' = matrix_calls st)"

text \<open>The three groups of a pending cell.\<close>

definition triple :: "pending \<Rightarrow> ref list" where
  "triple p = [p_group p, p_front p, p_back p]"

text \<open>The cells in the order of the three loops.\<close>

definition cells :: "nat \<Rightarrow> (nat \<times> nat \<times> nat) list" where
  "cells n = concat (map (\<lambda>x. concat (map (\<lambda>y. map (\<lambda>z. (x, y, z)) [0..<n]) [0..<n])) [0..<n])"

text \<open>A matrix of a cell: position and angle come from two values of the random source.\<close>

definition jittered :: "options \<Rightarrow> (nat \<Rightarrow> real) \<Rightarrow> nat \<times> nat \<times> nat \<Rightarrow> matrix4 \<Rightarrow> bool" where
  "jittered opts rnd c m =
     (case c of (x, y, z) \<Rightarrow>
        \<exists>a b. m = Matrix4 (Euler (rnd b * pi * 2) (rnd b * pi * 2) (rnd b * pi * 2))
                   (cell_position opts x y z
                      (rnd a * (rectWidth opts + gridOffset opts) * 0.5)))"

text \<open>The state of the loops after the cells \<open>seen\<close>: one matrix and one pending cell for
  each, one call of \<^verbatim>\<open>setMatrixAt\<close> for each after the \<open>calls\<close> made before, the groups of the
  pending cells distinct and still empty.\<close>

definition cube_inv ::
  "options \<Rightarrow> (nat \<Rightarrow> real) \<Rightarrow> nat \<Rightarrow> ref \<Rightarrow> ref \<Rightarrow> (nat \<times> nat \<times> nat) list \<Rightarrow> cube_state
     \<Rightarrow> bool" where
  "cube_inv opts rnd calls pm tg seen s =
     (case s of (i, ps, st) \<Rightarrow>
        i = length seen \<and> length ps = i \<and> pm < nextRef st \<and> tg < nextRef st \<and>
        matrix_calls st = calls + i \<and>
        (\<exists>im. plane_of st pm = Some im \<and> inst_count im = gridSize opts ^ 3 \<and>
              dom (instanceMatrix im) = {..<i} \<and>
              (\<forall>k<i. \<exists>m. instanceMatrix im k = Some m \<and> jittered opts rnd (seen ! k) m)) \<and>
        distinct (tg # concat (map triple ps)) \<and>
        (\<forall>r\<in>set (tg # concat (map triple ps)).
            r < nextRef st \<and> is_group st r \<and> kids st r = []))"

text \<open>One continuation with the \<^verbatim>\<open>textGroup.add(group)\<close> that follows it.\<close>

definition resume_one ::
  "options \<Rightarrow> (ref \<Rightarrow> render_info option) \<Rightarrow> ref \<Rightarrow> pending \<Rightarrow> app \<Rightarrow> app" where
  "resume_one opts measured tg p st =
     group_add tg [p_group p] (snd (createTextMeshes_resume opts measured p st))"

text \<open>Every cache entry is an allocated text mesh.\<close>

definition cache_ok :: "app \<Rightarrow> bool" where
  "cache_ok st = (\<forall>e\<in>set (textMeshCache st). is_text st (snd e) \<and> snd e < nextRef st)"

text \<open>One cell with the text of the specification's scenario, and the options of
  \<^verbatim>\<open>index.js\<close> otherwise.\<close>

definition small_options :: options where
  "small_options =
     \<lparr>gridSize = 1, gridOffset = 5, rectWidth = 1, rectBackgroundColor = ''#ffffff'',
      textColor = ''#121212'', highlightedTextColor = ''#ff0000'', fontSize = 0.13,
      lineHeight = 1.2, spaceWidth = 0.05, fontUrl = ''Roboto-Regular.woff'',
      textContent = ''Hi there''\<rparr>"

text \<open>Measurements: every word 0.6 wide; every word 2 wide; nothing measured.\<close>

definition measure_06 :: "ref \<Rightarrow> render_info option" where
  "measure_06 r = Some \<lparr>blockBounds = Some [0, - 0.13, 0.6, 0]\<rparr>"

definition measure_2 :: "ref \<Rightarrow> render_info option" where
  "measure_2 r = Some \<lparr>blockBounds = Some [0, - 0.13, 2, 0]\<rparr>"

definition measure_none :: "ref \<Rightarrow> render_info option" where
  "measure_none r = None"

text \<open>The first step of \<^verbatim>\<open>#createTextMeshes\<close> on the empty application, and the state when
  the meshes of the cell are synced.\<close>

definition cell_begun :: "options \<Rightarrow> pending \<times> app" where
  "cell_begun opts = createTextMeshes_begin opts (0, 0, 0) (Euler 0 0 0) initial_app"

definition cell_synced :: "options \<Rightarrow> (ref \<Rightarrow> render_info option) \<Rightarrow> app" where
  "cell_synced opts measured =
     fold (sync_done measured) (p_meshes (fst (cell_begun opts))) (snd (cell_begun opts))"

text \<open>A random source that always gives one half, and the scene assembled with it.\<close>

definition half_source :: "nat \<Rightarrow> real" where
  "half_source n = 1 / 2"

definition assembled :: "options \<Rightarrow> ref list \<times> app" where
  "assembled opts = createCubeOfPlanes opts half_source measure_06 initial_app"


text \<open>Lines of height 1.2 in a box of height 1.\<close>

definition tall_options :: options where
  "tall_options = small_options\<lparr>fontSize := 0.6, lineHeight := 2\<rparr>"

text \<open>A grid offset of minus the width of a plane: cells of size 0.\<close>

definition flat_options :: options where
  "flat_options = small_options\<lparr>gridOffset := - 1\<rparr>"

text \<open>The highlight colour as the default text colour.\<close>

definition red_options :: options where
  "red_options = small_options\<lparr>textColor := ''#ff0000''\<rparr>"

text \<open>No cell at all.\<close>

definition empty_options :: options where
  "empty_options = small_options\<lparr>gridSize := 0\<rparr>"

section \<open>Facts about the store\<close>

lemma obj_set_position_obs [simp]:
  "obj_children (obj_set_position v ob) = obj_children ob"
  "obj_is_group (obj_set_position v ob) = obj_is_group ob"
  "obj_is_text (obj_set_position v ob) = obj_is_text ob"
  "obj_bound (obj_set_position v ob) = obj_bound ob"
  "obj_position (obj_set_position v ob) = (if obj_is_text ob then v else (0, 0, 0))"
  by (cases ob; simp)+

lemma obj_add_obs [simp]:
  "obj_children (obj_add cs ob) = (if obj_is_group ob then obj_children ob @ cs else [])"
  "obj_is_group (obj_add cs ob) = obj_is_group ob"
  "obj_is_text (obj_add cs ob) = obj_is_text ob"
  "obj_bound (obj_add cs ob) = obj_bound ob"
  "obj_position (obj_add cs ob) = obj_position ob"
  by (cases ob; simp)+

lemma clone_obj_obs [simp]:
  "obj_children (clone_obj ob) = obj_children ob"
  "obj_is_group (clone_obj ob) = obj_is_group ob"
  "obj_is_text (clone_obj ob) = obj_is_text ob"
  "obj_bound (clone_obj ob) = None"
  "obj_position (clone_obj ob) = obj_position ob"
  by (cases ob; simp)+

lemma obj_kind_excl: "obj_is_text ob \<Longrightarrow> \<not> obj_is_group ob"
  by (cases ob) simp_all

lemma set_position_simps:
  "heap (set_position r v st) r' =
     (if r' = r then map_option (obj_set_position v) (heap st r) else heap st r')"
  "nextRef (set_position r v st) = nextRef st"
  "interactableMeshes (set_position r v st) = interactableMeshes st"
  "trace (set_position r v st) = trace st"
  "textMeshCache (set_position r v st) = textMeshCache st"
  "highlightedTextMesh (set_position r v st) = highlightedTextMesh st"
  "scene (set_position r v st) = scene st"
  "cursor (set_position r v st) = cursor st"
  "randomCalls (set_position r v st) = randomCalls st"
  by (simp_all add: set_position_def)

lemma group_add_simps:
  "heap (group_add g cs st) r' =
     (if r' = g then map_option (obj_add cs) (heap st g) else heap st r')"
  "nextRef (group_add g cs st) = nextRef st"
  "interactableMeshes (group_add g cs st) = interactableMeshes st"
  "trace (group_add g cs st) = trace st"
  "textMeshCache (group_add g cs st) = textMeshCache st"
  "highlightedTextMesh (group_add g cs st) = highlightedTextMesh st"
  "scene (group_add g cs st) = scene st"
  "cursor (group_add g cs st) = cursor st"
  "randomCalls (group_add g cs st) = randomCalls st"
  by (simp_all add: group_add_def)

lemma clone_simps:
  "fst (clone r st) = nextRef st"
  "heap (snd (clone r st)) r' = (if r' = nextRef st then map_option clone_obj (heap st r) else heap st r')"
  "nextRef (snd (clone r st)) = Suc (nextRef st)"
  "interactableMeshes (snd (clone r st)) = interactableMeshes st"
  "trace (snd (clone r st)) = trace st @ [CloneEv r (nextRef st)]"
  "textMeshCache (snd (clone r st)) = textMeshCache st"
  "highlightedTextMesh (snd (clone r st)) = highlightedTextMesh st"
  "scene (snd (clone r st)) = scene st"
  "cursor (snd (clone r st)) = cursor st"
  "randomCalls (snd (clone r st)) = randomCalls st"
  by (simp_all add: clone_def)

lemma alloc_simps:
  "fst (alloc ob st) = nextRef st"
  "heap (snd (alloc ob st)) r' = (if r' = nextRef st then Some ob else heap st r')"
  "nextRef (snd (alloc ob st)) = Suc (nextRef st)"
  "interactableMeshes (snd (alloc ob st)) = interactableMeshes st"
  "trace (snd (alloc ob st)) = trace st"
  "textMeshCache (snd (alloc ob st)) = textMeshCache st"
  "highlightedTextMesh (snd (alloc ob st)) = highlightedTextMesh st"
  "scene (snd (alloc ob st)) = scene st"
  "cursor (snd (alloc ob st)) = cursor st"
  "randomCalls (snd (alloc ob st)) = randomCalls st"
  by (simp_all add: alloc_def)

lemmas prim_simps = set_position_simps group_add_simps clone_simps alloc_simps

lemma place_fields:
  "nextRef (place m fg bg x y st) = Suc (nextRef st)"
  "interactableMeshes (place m fg bg x y st) = interactableMeshes st @ [m, nextRef st]"
  "trace (place m fg bg x y st) = trace st @ [CloneEv m (nextRef st)]"
  "textMeshCache (place m fg bg x y st) = textMeshCache st"
  "highlightedTextMesh (place m fg bg x y st) = highlightedTextMesh st"
  "scene (place m fg bg x y st) = scene st"
  "cursor (place m fg bg x y st) = cursor st"
  "randomCalls (place m fg bg x y st) = randomCalls st"
  by (simp_all add: place_def Let_def split_def prim_simps)

lemma place_heap_other:
  "r < nextRef st \<Longrightarrow> r \<noteq> m \<Longrightarrow> r \<noteq> fg \<Longrightarrow> r \<noteq> bg \<Longrightarrow> heap (place m fg bg x y st) r = heap st r"
  by (simp add: place_def Let_def split_def prim_simps)

lemma place_measured:
  "r < nextRef st \<Longrightarrow> measured_bound (place m fg bg x y st) r = measured_bound st r"
  by (auto simp add: place_def Let_def split_def prim_simps measured_bound_def split: option.splits dest: obj_kind_excl)

lemma place_is_text:
  "r < nextRef st \<Longrightarrow> is_text (place m fg bg x y st) r = is_text st r"
  by (auto simp add: place_def Let_def split_def prim_simps is_text_def split: option.splits dest: obj_kind_excl)

lemma place_is_group:
  "r < nextRef st \<Longrightarrow> is_group (place m fg bg x y st) r = is_group st r"
  by (auto simp add: place_def Let_def split_def prim_simps is_group_def split: option.splits dest: obj_kind_excl)

lemma place_position_self:
  "is_text st m \<Longrightarrow> m < nextRef st \<Longrightarrow> position_of (place m fg bg x y st) m = (x, y, 0)"
  by (auto simp add: place_def Let_def split_def prim_simps is_text_def position_of_def split: option.splits dest: obj_kind_excl)

lemma place_position_back:
  "is_text st m \<Longrightarrow> m < nextRef st \<Longrightarrow> fg < nextRef st \<Longrightarrow> bg < nextRef st \<Longrightarrow>
   position_of (place m fg bg x y st) (nextRef st) = (x, y, 0)"
  by (auto simp add: place_def Let_def split_def prim_simps is_text_def position_of_def split: option.splits dest: obj_kind_excl)

lemma place_position_other:
  "r < nextRef st \<Longrightarrow> r \<noteq> m \<Longrightarrow> position_of (place m fg bg x y st) r = position_of st r"
  by (auto simp add: place_def Let_def split_def prim_simps position_of_def split: option.splits dest: obj_kind_excl)

lemma place_kids_front:
  "is_group st fg \<Longrightarrow> fg < nextRef st \<Longrightarrow> fg \<noteq> bg \<Longrightarrow> kids (place m fg bg x y st) fg = kids st fg @ [m]"
  by (auto simp add: place_def Let_def split_def prim_simps is_group_def kids_def split: option.splits dest: obj_kind_excl)

lemma place_kids_back:
  "is_group st bg \<Longrightarrow> bg < nextRef st \<Longrightarrow> fg \<noteq> bg \<Longrightarrow> kids (place m fg bg x y st) bg = kids st bg @ [nextRef st]"
  by (auto simp add: place_def Let_def split_def prim_simps is_group_def kids_def split: option.splits dest: obj_kind_excl)

lemma place_kids_other:
  "r < nextRef st \<Longrightarrow> r \<noteq> fg \<Longrightarrow> r \<noteq> bg \<Longrightarrow> kids (place m fg bg x y st) r = kids st r"
  by (auto simp add: place_def Let_def split_def prim_simps kids_def split: option.splits dest: obj_kind_excl)

section \<open>The layout loop\<close>

lemma layout_loop_nextRef:
  "nextRef st \<le> nextRef (layout_loop opts ms fg bg x y st)"
proof (induction ms arbitrary: x y st)
  case Nil
  show ?case by simp
next
  case (Cons m ms)
  have "nextRef st \<le> nextRef (place m fg bg x' y' st)" for x' y'
    by (simp add: place_fields)
  then show ?case
    using Cons.IH order_trans by (fastforce simp add: Let_def)
qed

lemma layout_loop_measured:
  "r < nextRef st \<Longrightarrow> measured_bound (layout_loop opts ms fg bg x y st) r = measured_bound st r"
  by (induction ms arbitrary: x y st) (simp_all add: Let_def place_fields place_measured)

lemma layout_loop_is_text:
  "r < nextRef st \<Longrightarrow> is_text (layout_loop opts ms fg bg x y st) r = is_text st r"
  by (induction ms arbitrary: x y st) (simp_all add: Let_def place_fields place_is_text)

lemma layout_loop_is_group:
  "r < nextRef st \<Longrightarrow> is_group (layout_loop opts ms fg bg x y st) r = is_group st r"
  by (induction ms arbitrary: x y st) (simp_all add: Let_def place_fields place_is_group)

lemma layout_loop_position_other:
  "r < nextRef st \<Longrightarrow> r \<notin> set ms \<Longrightarrow>
   position_of (layout_loop opts ms fg bg x y st) r = position_of st r"
  by (induction ms arbitrary: x y st) (simp_all add: Let_def place_fields place_position_other)

lemma layout_loop_kids_other:
  "r < nextRef st \<Longrightarrow> r \<noteq> fg \<Longrightarrow> r \<noteq> bg \<Longrightarrow>
   kids (layout_loop opts ms fg bg x y st) r = kids st r"
  by (induction ms arbitrary: x y st) (simp_all add: Let_def place_fields place_kids_other)

lemma layout_loop_heap_other:
  "r < nextRef st \<Longrightarrow> r \<notin> set ms \<Longrightarrow> r \<noteq> fg \<Longrightarrow> r \<noteq> bg \<Longrightarrow>
   heap (layout_loop opts ms fg bg x y st) r = heap st r"
  by (induction ms arbitrary: x y st) (simp_all add: Let_def place_fields place_heap_other)

lemma layout_loop_registry:
  "set (interactableMeshes st) \<subseteq> set (interactableMeshes (layout_loop opts ms fg bg x y st))"
proof (induction ms arbitrary: x y st)
  case Nil
  show ?case by simp
next
  case (Cons m ms)
  have "set (interactableMeshes st) \<subseteq> set (interactableMeshes (place m fg bg x' y' st))"
    for x' y'
    by (auto simp add: place_fields)
  then show ?case
    using Cons.IH by (fastforce simp add: Let_def)
qed



lemma layout_loop_width:
  "r < nextRef st \<Longrightarrow> mesh_width (layout_loop opts ms fg bg x y st) r = mesh_width st r"
  by (simp add: mesh_width_def layout_loop_measured)

text \<open>The words that are placed are a prefix of the input; each one is well placed, and its
  copy in the back group has the same position.\<close>

lemma layout_loop_placed:
  assumes "distinct ms" and "\<forall>r\<in>set ms. is_text st r \<and> r < nextRef st"
    and "is_group st fg" and "fg < nextRef st" and "is_group st bg" and "bg < nextRef st"
    and "fg \<noteq> bg"
  shows "\<exists>n bs. n \<le> length ms \<and> length bs = n \<and>
           kids (layout_loop opts ms fg bg x y st) fg = kids st fg @ take n ms \<and>
           kids (layout_loop opts ms fg bg x y st) bg = kids st bg @ bs \<and>
           (\<forall>r\<in>set (take n ms). well_placed opts (layout_loop opts ms fg bg x y st) r) \<and>
           (\<forall>i<n. position_of (layout_loop opts ms fg bg x y st) (bs ! i) =
                   position_of (layout_loop opts ms fg bg x y st) (ms ! i)) \<and>
           set (take n ms) \<subseteq> set (interactableMeshes (layout_loop opts ms fg bg x y st))"
  using assms
proof (induction ms arbitrary: x y st)
  case Nil
  show ?case by simp
next
  case (Cons m ms)
  define w where "w = mesh_width st m"
  define x1 where "x1 = (if x + w > rectWidth opts then 0 else x)"
  define y1 where
    "y1 = (if x + w > rectWidth opts then y - fontSize opts * lineHeight opts else y)"
  show ?case
  proof (cases "y1 - fontSize opts * lineHeight opts < - rectWidth opts")
    case True
    then have "layout_loop opts (m # ms) fg bg x y st = st"
      by (simp add: Let_def w_def x1_def y1_def)
    then show ?thesis by (intro exI[of _ 0] exI[of _ "[]"]) simp
  next
    case False
    define st1 where "st1 = place m fg bg x1 y1 st"
    define st' where "st' = layout_loop opts ms fg bg (x1 + w + spaceWidth opts) y1 st1"
    define b where "b = nextRef st"
    have unfold: "layout_loop opts (m # ms) fg bg x y st = st'"
      using False by (simp add: Let_def w_def x1_def y1_def st1_def st'_def)
    have m: "is_text st m" "m < nextRef st" "m \<notin> set ms"
      using Cons.prems by auto
    have n1: "nextRef st1 = Suc (nextRef st)"
      by (simp add: st1_def place_fields)
    have pre: "distinct ms" "\<forall>r\<in>set ms. is_text st1 r \<and> r < nextRef st1"
      "is_group st1 fg" "fg < nextRef st1" "is_group st1 bg" "bg < nextRef st1"
      using Cons.prems by (auto simp add: st1_def place_is_text place_is_group place_fields)
    from Cons.IH[OF pre \<open>fg \<noteq> bg\<close>, of "x1 + w + spaceWidth opts" y1]
    obtain n bs where n: "n \<le> length ms" "length bs = n"
      "kids st' fg = kids st1 fg @ take n ms" "kids st' bg = kids st1 bg @ bs"
      "\<forall>r\<in>set (take n ms). well_placed opts st' r"
      "\<forall>i<n. position_of st' (bs ! i) = position_of st' (ms ! i)"
      "set (take n ms) \<subseteq> set (interactableMeshes st')"
      unfolding st'_def by blast
    have k1: "kids st1 fg = kids st fg @ [m]" "kids st1 bg = kids st bg @ [b]"
      using Cons.prems by (simp_all add: st1_def b_def place_kids_front place_kids_back)
    have m1: "m < nextRef st1"
      using m n1 by simp
    have "position_of st' m = position_of st1 m"
      unfolding st'_def using m1 m(3) by (rule layout_loop_position_other)
    then have pos: "position_of st' m = (x1, y1, 0)"
      using m by (simp add: st1_def place_position_self)
    have b1: "b < nextRef st1" "b \<notin> set ms"
      using n1 Cons.prems(2) by (auto simp add: b_def)
    have "position_of st' b = position_of st1 b"
      unfolding st'_def using b1 by (rule layout_loop_position_other)
    then have posb: "position_of st' b = (x1, y1, 0)"
      using m Cons.prems by (simp add: st1_def b_def place_position_back)
    have "mesh_width st' m = mesh_width st1 m"
      unfolding st'_def using m1 by (rule layout_loop_width)
    then have wid: "mesh_width st' m = w"
      using m by (simp add: st1_def mesh_width_def place_measured w_def)
    have wp: "well_placed opts st' m"
      using False by (auto simp add: well_placed_def pos wid x1_def y1_def)
    have "\<forall>i<Suc n. position_of st' ((b # bs) ! i) = position_of st' ((m # ms) ! i)"
      using n(6) pos posb by (auto simp add: nth_Cons split: nat.splits)
    moreover have "m \<in> set (interactableMeshes st')"
      using layout_loop_registry[of st1 opts ms fg bg "x1 + w + spaceWidth opts" y1]
      by (auto simp add: st'_def st1_def place_fields)
    ultimately show ?thesis
      using n k1 wp unfolding unfold by (intro exI[of _ "Suc n"] exI[of _ "b # bs"]) auto
  qed
qed

subsection \<open>Concrete layouts\<close>

lemmas cell_eval =
  cell_synced_def cell_begun_def createTextMeshes_begin_def new_group_def alloc_def
  initial_app_def generateTextMeshes_def small_options_def tall_options_def generate_mesh_def
  new_text_def Let_def split_def clone_def sync_done_def sync_call_def

lemmas layout_eval =
  layoutTextMeshes_def place_def set_position_def group_add_def mesh_width_def
  measured_bound_def measure_06_def measure_2_def measure_none_def js_index_def or_zero_def
  kids_def position_of_def

lemma cell_synced_ready:
  "is_text (cell_synced small_options measured) 3"
  "is_text (cell_synced small_options measured) 4"
  "is_group (cell_synced small_options measured) (Suc 0)"
  "is_group (cell_synced small_options measured) 2"
  "nextRef (cell_synced small_options measured) = 5"
  "kids (cell_synced small_options measured) (Suc 0) = []"
  "kids (cell_synced small_options measured) 2 = []"
  by (simp_all add: cell_eval is_text_def is_group_def kids_def)

lemma cell_synced_ready_all:
  "distinct [3, 4 :: ref] \<and>
   (\<forall>r\<in>set [3, 4]. is_text (cell_synced small_options measured) r \<and>
      r < nextRef (cell_synced small_options measured)) \<and>
   is_group (cell_synced small_options measured) 1 \<and>
   1 < nextRef (cell_synced small_options measured) \<and>
   is_group (cell_synced small_options measured) 2 \<and>
   2 < nextRef (cell_synced small_options measured) \<and> (1 :: ref) \<noteq> 2"
  by (simp add: cell_synced_ready)

text \<open>The scenario of the specification: two words that fit one by one but not together.
  The first is placed on line 0, the second is wrapped to line 1.\<close>

lemma layout_hi_there:
  "kids (layoutTextMeshes small_options [3, 4] (Suc 0) 2 (cell_synced small_options measure_06)) (Suc 0)
     = [3, 4]"
  "position_of (layoutTextMeshes small_options [3, 4] (Suc 0) 2 (cell_synced small_options measure_06)) 3
     = (0, 0, 0)"
  "position_of (layoutTextMeshes small_options [3, 4] (Suc 0) 2 (cell_synced small_options measure_06)) 4
     = (0, - 0.156, 0)"
  by (simp_all add: cell_eval layout_eval)

section \<open>Claims about the layout\<close>




text \<open>
  C4: every mesh that the layout places, the word in the front group and its copy in the
  back group, has a \<open>y\<close> with \<open>y - lineHeight \<ge> - rectWidth\<close>, where \<open>lineHeight\<close> is
  \<open>fontSize * options.lineHeight\<close>; the placed words are a prefix of the input; and at
  the first word that fails the check the loop ends with the state as it is, whatever
  words follow: no later word is wrapped or placed.
\<close>

theorem layout_never_below_bound:
  assumes "distinct meshes" and "\<forall>r\<in>set meshes. is_text st r \<and> r < nextRef st"
    and "is_group st frontGroup" and "frontGroup < nextRef st"
    and "is_group st backGroup" and "backGroup < nextRef st"
    and "frontGroup \<noteq> backGroup"
  shows "(\<exists>n bs. n \<le> length meshes \<and> length bs = n \<and>
            kids (layoutTextMeshes opts meshes frontGroup backGroup st) frontGroup
              = kids st frontGroup @ take n meshes \<and>
            kids (layoutTextMeshes opts meshes frontGroup backGroup st) backGroup
              = kids st backGroup @ bs \<and>
            (\<forall>r\<in>set (take n meshes) \<union> set bs.
               fst (snd (position_of (layoutTextMeshes opts meshes frontGroup backGroup st) r))
                 - fontSize opts * lineHeight opts \<ge> - rectWidth opts)) \<and>
         (\<forall>mesh rest x y s.
            (if x + mesh_width s mesh > rectWidth opts
             then y - fontSize opts * lineHeight opts else y)
              - fontSize opts * lineHeight opts < - rectWidth opts \<longrightarrow>
            layout_loop opts (mesh # rest) frontGroup backGroup x y s = s)"
proof -
  define st' where "st' = layoutTextMeshes opts meshes frontGroup backGroup st"
  define lh where "lh = fontSize opts * lineHeight opts"
  from layout_loop_placed[OF assms, of opts 0 0]
  obtain n bs where n: "n \<le> length meshes" "length bs = n"
    "kids st' frontGroup = kids st frontGroup @ take n meshes"
    "kids st' backGroup = kids st backGroup @ bs"
    "\<forall>r\<in>set (take n meshes). well_placed opts st' r"
    "\<forall>i<n. position_of st' (bs ! i) = position_of st' (meshes ! i)"
    unfolding st'_def layoutTextMeshes_def by blast
  have fronts: "fst (snd (position_of st' r)) - lh \<ge> - rectWidth opts"
    if "r \<in> set (take n meshes)" for r
  proof -
    obtain px py pz where p: "position_of st' r = (px, py, pz)"
      by (cases "position_of st' r") auto
    from n(5) that show ?thesis
      by (auto simp add: well_placed_def p lh_def)
  qed
  have backs: "fst (snd (position_of st' r)) - lh \<ge> - rectWidth opts" if "r \<in> set bs" for r
  proof -
    from that obtain i where i: "i < n" "r = bs ! i"
      using n(2) by (auto simp add: in_set_conv_nth)
    then have "meshes ! i \<in> set (take n meshes)"
      using n(1) by (auto simp add: in_set_conv_nth intro!: exI[of _ i])
    then show ?thesis using fronts n(6) i by simp
  qed
  have "\<exists>n bs. n \<le> length meshes \<and> length bs = n \<and>
          kids st' frontGroup = kids st frontGroup @ take n meshes \<and>
          kids st' backGroup = kids st backGroup @ bs \<and>
          (\<forall>r\<in>set (take n meshes) \<union> set bs.
             fst (snd (position_of st' r)) - lh \<ge> - rectWidth opts)"
    using n(1-4) fronts backs by blast
  moreover have "\<forall>mesh rest x y s.
      (if x + mesh_width s mesh > rectWidth opts then y - lh else y) - lh < - rectWidth opts \<longrightarrow>
      layout_loop opts (mesh # rest) frontGroup backGroup x y s = s"
    by (simp add: Let_def lh_def)
  ultimately show ?thesis unfolding st'_def lh_def by blast
qed

theorem layout_never_below_bound_witness:
  "is_text (cell_synced small_options measure_06) 4 \<and>
   is_group (cell_synced small_options measure_06) 2 \<and>
   position_of (layoutTextMeshes small_options [3, 4] 1 2 (cell_synced small_options measure_06)) 4
     = (0, - 0.156, 0) \<and>
   (\<exists>n bs. n \<le> length [3, 4 :: ref] \<and> length bs = n \<and>
      kids (layoutTextMeshes small_options [3, 4] 1 2 (cell_synced small_options measure_06)) 1
        = kids (cell_synced small_options measure_06) 1 @ take n [3, 4] \<and>
      kids (layoutTextMeshes small_options [3, 4] 1 2 (cell_synced small_options measure_06)) 2
        = kids (cell_synced small_options measure_06) 2 @ bs \<and>
      (\<forall>r\<in>set (take n [3, 4]) \<union> set bs.
         fst (snd (position_of (layoutTextMeshes small_options [3, 4] 1 2
                                  (cell_synced small_options measure_06)) r))
           - fontSize small_options * lineHeight small_options
           \<ge> - rectWidth small_options))"
proof -
  have h: "distinct [3, 4 :: ref]"
    "\<forall>r\<in>set [3, 4]. is_text (cell_synced small_options measure_06) r \<and>
       r < nextRef (cell_synced small_options measure_06)"
    "is_group (cell_synced small_options measure_06) 1"
    "1 < nextRef (cell_synced small_options measure_06)"
    "is_group (cell_synced small_options measure_06) 2"
    "2 < nextRef (cell_synced small_options measure_06)" "(1 :: ref) \<noteq> 2"
    using cell_synced_ready_all[of measure_06] by blast+
  show ?thesis
    using layout_never_below_bound[OF h, of small_options, THEN conjunct1]
    by (simp add: cell_synced_ready layout_hi_there)
qed

text \<open>
  C10, as stated: a mesh without measured bounds is still placed at the current cursor
  position. It fails when the height check stops the loop: with lines of height 1.2 in a
  box of height 1 nothing has been measured, the widths are 0, and no word is placed.
\<close>

theorem unmeasured_mesh_not_placed:
  "measured_bound (cell_synced tall_options measure_none) 3 = None \<and>
   is_text (cell_synced tall_options measure_none) 3 \<and>
   kids (layoutTextMeshes tall_options [3, 4] 1 2 (cell_synced tall_options measure_none)) 1 = [] \<and>
   3 \<notin> set (interactableMeshes
               (layoutTextMeshes tall_options [3, 4] 1 2 (cell_synced tall_options measure_none)))"
  by (simp add: cell_eval layout_eval is_text_def)

text \<open>
  C10, amended: a text mesh with no \<^verbatim>\<open>textRenderInfo\<close>, or with one without
  \<^verbatim>\<open>blockBounds\<close>, has width 0, and the loop goes on with it as with any word of width 0,
  without an error: it is wrapped to the next line only when the cursor \<open>x\<close> is already
  beyond \<open>rectWidth\<close>; when the height check fails the loop ends there and the mesh is not
  placed; otherwise the mesh is placed at the cursor, as it is after the wrap, it becomes
  interactable, and the loop goes on with \<open>x\<close> advanced by \<open>spaceWidth\<close> only.
\<close>

theorem unmeasured_mesh_has_width_zero:
  assumes "heap st mesh = Some (Text m)" and "mesh < nextRef st"
    and "textRenderInfo m = None \<or> (\<exists>ri. textRenderInfo m = Some ri \<and> blockBounds ri = None)"
  shows "mesh_width st mesh = 0 \<and>
         layout_loop opts (mesh # rest) frontGroup backGroup x y st =
           (let x1 = (if x > rectWidth opts then 0 else x);
                y1 = (if x > rectWidth opts then y - fontSize opts * lineHeight opts else y)
            in if y1 - fontSize opts * lineHeight opts < - rectWidth opts then st
               else layout_loop opts rest frontGroup backGroup (x1 + spaceWidth opts) y1
                      (place mesh frontGroup backGroup x1 y1 st)) \<and>
         position_of (place mesh frontGroup backGroup x1 y1 st) mesh = (x1, y1, 0) \<and>
         mesh \<in> set (interactableMeshes (place mesh frontGroup backGroup x1 y1 st))"
proof -
  have "obj_bound (Text m) = None"
    using assms(3) by auto
  then have w: "mesh_width st mesh = 0"
    by (simp add: mesh_width_def measured_bound_def assms(1) or_zero_def)
  have "is_text st mesh"
    by (simp add: is_text_def assms(1))
  then have "position_of (place mesh frontGroup backGroup x1 y1 st) mesh = (x1, y1, 0)"
    using assms(2) by (rule place_position_self)
  then show ?thesis
    by (simp add: w Let_def place_fields)
qed

theorem unmeasured_mesh_has_width_zero_witness:
  "is_text (cell_synced small_options measure_none) 3 \<and>
   measured_bound (cell_synced small_options measure_none) 3 = None \<and>
   mesh_width (cell_synced small_options measure_none) 3 = 0 \<and>
   layout_loop small_options [3, 4] 1 2 0 0 (cell_synced small_options measure_none) =
     layout_loop small_options [4] 1 2 (0 + spaceWidth small_options) 0
       (place 3 1 2 0 0 (cell_synced small_options measure_none)) \<and>
   position_of (place 3 1 2 0 0 (cell_synced small_options measure_none)) 3 = (0, 0, 0)"
proof -
  define m where
    "m = \<lparr>mesh_text = ''Hi'', mesh_fontSize = fontSize small_options,
          mesh_font = fontUrl small_options, mesh_maxWidth = rectWidth small_options,
          mesh_color = textColor small_options, mesh_position = (0, 0, 0),
          textRenderInfo = None\<rparr>"
  have h: "heap (cell_synced small_options measure_none) 3 = Some (Text m)"
    "3 < nextRef (cell_synced small_options measure_none)"
    "textRenderInfo m = None \<or> (\<exists>ri. textRenderInfo m = Some ri \<and> blockBounds ri = None)"
    by (simp_all add: m_def cell_eval measure_none_def)
  have r: "rectWidth small_options = 1" "fontSize small_options * lineHeight small_options < 1"
    by (simp_all add: small_options_def)
  show ?thesis
    using unmeasured_mesh_has_width_zero[OF h, of small_options "[4]" 1 2 0 0 0 0] r
    by (simp add: is_text_def measured_bound_def h(1) m_def)
qed

section \<open>Frames of the interaction loop\<close>

lemma obj_set_color_obs [simp]:
  "obj_has_text (obj_set_color c ob) = obj_has_text ob"
  "obj_is_text (obj_set_color c ob) = obj_is_text ob"
  "obj_is_group (obj_set_color c ob) = obj_is_group ob"
  "obj_children (obj_set_color c ob) = obj_children ob"
  "obj_color (obj_set_color c ob) = (if obj_is_text ob then Some c else None)"
  by (cases ob; simp)+


lemma set_color_simps:
  "heap (set_color r c st) r' =
     (if r' = r then map_option (obj_set_color c) (heap st r) else heap st r')"
  "nextRef (set_color r c st) = nextRef st"
  "interactableMeshes (set_color r c st) = interactableMeshes st"
  "trace (set_color r c st) = trace st @ [SetColor r c]"
  "textMeshCache (set_color r c st) = textMeshCache st"
  "highlightedTextMesh (set_color r c st) = highlightedTextMesh st"
  by (simp_all add: set_color_def)

lemma sync_call_simps:
  "heap (sync_call r st) = heap st"
  "nextRef (sync_call r st) = nextRef st"
  "interactableMeshes (sync_call r st) = interactableMeshes st"
  "trace (sync_call r st) = trace st @ [Sync r]"
  "textMeshCache (sync_call r st) = textMeshCache st"
  "highlightedTextMesh (sync_call r st) = highlightedTextMesh st"
  "scene (sync_call r st) = scene st"
  "cursor (sync_call r st) = cursor st"
  "randomCalls (sync_call r st) = randomCalls st"
  by (simp_all add: sync_call_def)

lemma set_cursor_simps:
  "heap (set_cursor c st) = heap st"
  "nextRef (set_cursor c st) = nextRef st"
  "interactableMeshes (set_cursor c st) = interactableMeshes st"
  "trace (set_cursor c st) = trace st @ [SetCursor c]"
  "textMeshCache (set_cursor c st) = textMeshCache st"
  "highlightedTextMesh (set_cursor c st) = highlightedTextMesh st"
  by (simp_all add: set_cursor_def)

lemmas paint_simps = set_color_simps sync_call_simps set_cursor_simps

lemma has_text_heap_cong: "heap st' = heap st \<Longrightarrow> has_text st' v = has_text st v"
  by (cases v) (simp_all add: has_text_def)

lemma resetHighlight_simps:
  "heap (resetHighlight opts st) r =
     (if has_text st (highlightedTextMesh st) \<and> highlightedTextMesh st = Obj r
      then map_option (obj_set_color (textColor opts)) (heap st r) else heap st r)"
  "interactableMeshes (resetHighlight opts st) = interactableMeshes st"
  "highlightedTextMesh (resetHighlight opts st) = highlightedTextMesh st"
  "trace (resetHighlight opts st) =
     trace st @ color_events st (highlightedTextMesh st) (textColor opts) @ [SetCursor ''auto'']"
  by (auto simp add: resetHighlight_def paint_simps color_events_def has_text_def split: jsref.splits)

lemma applyHighlight_simps:
  "heap (applyHighlight v c st) r =
     (if has_text st v \<and> v = Obj r then map_option (obj_set_color c) (heap st r) else heap st r)"
  "interactableMeshes (applyHighlight v c st) = interactableMeshes st"
  "highlightedTextMesh (applyHighlight v c st) = highlightedTextMesh st"
  "trace (applyHighlight v c st) =
     trace st @ color_events st v c @ (if has_text st v then [SetCursor ''pointer''] else [])"
  by (auto simp add: applyHighlight_def paint_simps color_events_def has_text_def split: jsref.splits)

lemma has_text_reset: "has_text (resetHighlight opts st) v = has_text st v"
  by (cases v) (auto simp add: has_text_def resetHighlight_simps split: option.splits)

lemma has_text_apply: "has_text (applyHighlight w c st) v = has_text st v"
  by (cases v) (auto simp add: has_text_def applyHighlight_simps split: option.splits)

lemma color_events_reset:
  "color_events (resetHighlight opts st) v c = color_events st v c"
  by (cases v) (simp_all add: color_events_def has_text_reset)

lemma processIntersections_registry:
  "interactableMeshes (processIntersections opts intersects st) = interactableMeshes st"
  by (simp add: processIntersections_def Let_def applyHighlight_simps resetHighlight_simps)

lemma processIntersections_highlighted:
  "highlightedTextMesh (processIntersections opts intersects st) = hovered_of intersects"
  by (simp add: processIntersections_def Let_def)

lemma processIntersections_trace:
  "highlightedTextMesh st \<noteq> hovered_of intersects \<Longrightarrow>
   trace (processIntersections opts intersects st) =
     trace st @ color_events st (highlightedTextMesh st) (textColor opts) @ [SetCursor ''auto''] @
     color_events st (hovered_of intersects) (highlightedTextColor opts) @
     (if has_text st (hovered_of intersects) then [SetCursor ''pointer''] else [])"
  by (simp add: processIntersections_def Let_def applyHighlight_simps resetHighlight_simps
      color_events_reset has_text_reset)

lemma reset_clears:
  assumes "textColor opts \<noteq> highlightedTextColor opts" and "highlight_inv opts st"
  shows "\<not> carries (resetHighlight opts st) (highlightedTextColor opts) r"
proof
  assume c: "carries (resetHighlight opts st) (highlightedTextColor opts) r"
  show False
  proof (cases "has_text st (highlightedTextMesh st) \<and> highlightedTextMesh st = Obj r")
    case True
    with c assms(1) show False
      by (auto simp add: carries_def resetHighlight_simps split: option.splits if_splits)
  next
    case False
    with c have "carries st (highlightedTextColor opts) r"
      by (auto simp add: carries_def resetHighlight_simps)
    with assms(2) False show False
      by (auto simp add: highlight_inv_def)
  qed
qed

lemma processIntersections_inv:
  assumes "textColor opts \<noteq> highlightedTextColor opts" and "highlight_inv opts st"
  shows "highlight_inv opts (processIntersections opts intersects st)"
proof (cases "highlightedTextMesh st = hovered_of intersects")
  case True
  with assms(2) show ?thesis by (simp add: processIntersections_def)
next
  case False
  define st1 where "st1 = resetHighlight opts st"
  define v where "v = hovered_of intersects"
  define st2 where "st2 = applyHighlight v (highlightedTextColor opts) st1"
  have res: "processIntersections opts intersects st = st2\<lparr>highlightedTextMesh := v\<rparr>"
    using False by (simp add: processIntersections_def Let_def st1_def st2_def v_def)
  have clear: "\<not> carries st1 (highlightedTextColor opts) r" for r
    unfolding st1_def using assms by (rule reset_clears)
  have "highlightedTextMesh (st2\<lparr>highlightedTextMesh := v\<rparr>) = Obj r \<and>
        has_text (st2\<lparr>highlightedTextMesh := v\<rparr>) (Obj r)"
    if c: "carries (st2\<lparr>highlightedTextMesh := v\<rparr>) (highlightedTextColor opts) r" for r
  proof (cases "has_text st1 v \<and> v = Obj r")
    case True
    then have "has_text st2 (Obj r)"
      by (auto simp add: st2_def has_text_apply)
    then have "has_text (st2\<lparr>highlightedTextMesh := v\<rparr>) (Obj r)"
      by (simp add: has_text_def)
    then show ?thesis using True by simp
  next
    case False
    with c have "carries st1 (highlightedTextColor opts) r"
      by (auto simp add: carries_def st2_def applyHighlight_simps)
    with clear show ?thesis by blast
  qed
  then show ?thesis unfolding res highlight_inv_def by blast
qed

lemma hover_idem:
  "processIntersections opts intersects (processIntersections opts intersects st) =
   processIntersections opts intersects st"
  by (simp add: processIntersections_def Let_def)

section \<open>What the assembly keeps\<close>

lemma obj_color_obs [simp]:
  "obj_color (obj_set_position v ob) = obj_color ob"
  "obj_color (obj_add cs ob) = obj_color ob"
  "obj_color (clone_obj ob) = obj_color ob"
  "obj_color (obj_set_info i ob) = obj_color ob"
  "obj_color (obj_setMatrixAt k m ob) = obj_color ob"
  by (cases ob; simp)+

lemma sync_done_simps:
  "heap (sync_done measured r st) r' =
     (if r' = r then map_option (obj_set_info (measured r)) (heap st r) else heap st r')"
  "nextRef (sync_done measured r st) = nextRef st"
  "interactableMeshes (sync_done measured r st) = interactableMeshes st"
  "trace (sync_done measured r st) = trace st"
  "textMeshCache (sync_done measured r st) = textMeshCache st"
  "highlightedTextMesh (sync_done measured r st) = highlightedTextMesh st"
  "scene (sync_done measured r st) = scene st"
  by (simp_all add: sync_done_def)

lemma setMatrixAt_simps:
  "heap (setMatrixAt r i m st) r' =
     (if r' = r then map_option (obj_setMatrixAt i m) (heap st r) else heap st r')"
  "nextRef (setMatrixAt r i m st) = nextRef st"
  "interactableMeshes (setMatrixAt r i m st) = interactableMeshes st"
  "trace (setMatrixAt r i m st) = trace st @ [SetMatrixAt i m]"
  "textMeshCache (setMatrixAt r i m st) = textMeshCache st"
  "highlightedTextMesh (setMatrixAt r i m st) = highlightedTextMesh st"
  "scene (setMatrixAt r i m st) = scene st"
  "randomCalls (setMatrixAt r i m st) = randomCalls st"
  by (simp_all add: setMatrixAt_def)

lemma math_random_simps:
  "fst (math_random rnd st) = rnd (randomCalls st)"
  "heap (snd (math_random rnd st)) = heap st"
  "nextRef (snd (math_random rnd st)) = nextRef st"
  "interactableMeshes (snd (math_random rnd st)) = interactableMeshes st"
  "trace (snd (math_random rnd st)) = trace st"
  "textMeshCache (snd (math_random rnd st)) = textMeshCache st"
  "highlightedTextMesh (snd (math_random rnd st)) = highlightedTextMesh st"
  "scene (snd (math_random rnd st)) = scene st"
  "randomCalls (snd (math_random rnd st)) = Suc (randomCalls st)"
  by (simp_all add: math_random_def)

lemma assembly_step_refl: "assembly_step opts st st"
  by (simp add: assembly_step_def)

lemma assembly_step_trans [trans]:
  "assembly_step opts st st1 \<Longrightarrow> assembly_step opts st1 st2 \<Longrightarrow> assembly_step opts st st2"
  unfolding assembly_step_def by auto

lemma assembly_step_plain:
  assumes "highlightedTextMesh st' = highlightedTextMesh st"
    and "textMeshCache st' = textMeshCache st"
    and "filter is_construct (trace st') = filter is_construct (trace st)"
    and "\<And>r ob'. heap st' r = Some ob' \<Longrightarrow>
           (\<exists>ob r0. heap st r0 = Some ob \<and> obj_color ob' = obj_color ob) \<or> obj_color ob' = None"
  shows "assembly_step opts st st'"
proof -
  have "colors_default opts st'" if c: "colors_default opts st"
    unfolding colors_default_def
  proof (intro allI impI)
    fix r ob' assume "heap st' r = Some ob'"
    from assms(4)[OF this] c show "obj_color ob' = None \<or> obj_color ob' = Some (textColor opts)"
      unfolding colors_default_def by metis
  qed
  then show ?thesis
    using assms(1-3) by (simp add: assembly_step_def cache_inv_def cache_keys_def)
qed

lemma set_position_step: "assembly_step opts st (set_position r v st)"
  by (rule assembly_step_plain) (auto simp add: set_position_simps split: if_splits)

lemma group_add_step: "assembly_step opts st (group_add g cs st)"
  by (rule assembly_step_plain) (auto simp add: group_add_simps split: if_splits)

lemma clone_step: "assembly_step opts st (snd (clone r st))"
  by (rule assembly_step_plain) (auto simp add: clone_simps split: if_splits)

lemma sync_done_step: "assembly_step opts st (sync_done measured r st)"
  by (rule assembly_step_plain) (auto simp add: sync_done_simps split: if_splits)

lemma sync_call_step: "assembly_step opts st (sync_call r st)"
  by (rule assembly_step_plain) (auto simp add: sync_call_simps)

lemma setMatrixAt_step: "assembly_step opts st (setMatrixAt r i m st)"
  by (rule assembly_step_plain) (auto simp add: setMatrixAt_simps split: if_splits)

lemma math_random_step: "assembly_step opts st (snd (math_random rnd st))"
  by (rule assembly_step_plain) (auto simp add: math_random_simps)

lemma new_group_step: "assembly_step opts st (snd (new_group pos rot st))"
  by (rule assembly_step_plain) (auto simp add: new_group_def alloc_simps split: if_splits)

lemma registry_step: "assembly_step opts st (st\<lparr>interactableMeshes := ms\<rparr>)"
  by (rule assembly_step_plain) auto

lemma scene_step: "assembly_step opts st (st\<lparr>scene := ms\<rparr>)"
  by (rule assembly_step_plain) auto

lemma place_step: "assembly_step opts st (place m fg bg x y st)"
proof -
  define st1 where "st1 = set_position m (x, y, 0) st"
  define st2 where "st2 = snd (clone m st1)"
  define st3 where "st3 = set_position (fst (clone m st1)) (x, y, 0) st2"
  define st4 where "st4 = group_add fg [m] st3"
  define st5 where "st5 = group_add bg [fst (clone m st1)] st4"
  have eq: "place m fg bg x y st =
      st5\<lparr>interactableMeshes := interactableMeshes st5 @ [m, fst (clone m st1)]\<rparr>"
    by (simp add: place_def Let_def split_def st1_def st2_def st3_def st4_def st5_def)
  have "assembly_step opts st st1"
    unfolding st1_def by (rule set_position_step)
  also have "assembly_step opts st1 st2"
    unfolding st2_def by (rule clone_step)
  also have "assembly_step opts st2 st3"
    unfolding st3_def by (rule set_position_step)
  also have "assembly_step opts st3 st4"
    unfolding st4_def by (rule group_add_step)
  also have "assembly_step opts st4 st5"
    unfolding st5_def by (rule group_add_step)
  also have "assembly_step opts st5
      (st5\<lparr>interactableMeshes := interactableMeshes st5 @ [m, fst (clone m st1)]\<rparr>)"
    by (rule registry_step)
  finally show ?thesis
    unfolding eq .
qed

lemma layout_loop_step: "assembly_step opts st (layout_loop opts ms fg bg x y st)"
proof (induction ms arbitrary: x y st)
  case Nil
  show ?case by (simp add: assembly_step_refl)
next
  case (Cons m ms)
  define w where "w = mesh_width st m"
  define x1 where "x1 = (if x + w > rectWidth opts then 0 else x)"
  define y1 where
    "y1 = (if x + w > rectWidth opts then y - fontSize opts * lineHeight opts else y)"
  show ?case
  proof (cases "y1 - fontSize opts * lineHeight opts < - rectWidth opts")
    case True
    then show ?thesis
      by (simp add: Let_def w_def x1_def y1_def assembly_step_refl)
  next
    case False
    have "assembly_step opts st (place m fg bg x1 y1 st)"
      by (rule place_step)
    also have "assembly_step opts (place m fg bg x1 y1 st)
        (layout_loop opts ms fg bg (x1 + w + spaceWidth opts) y1 (place m fg bg x1 y1 st))"
      by (rule Cons.IH)
    finally show ?thesis
      using False by (simp add: Let_def w_def x1_def y1_def)
  qed
qed

lemma fold_step:
  assumes "\<And>x s. assembly_step opts s (f x s)"
  shows "assembly_step opts st (fold f xs st)"
proof (induction xs arbitrary: st)
  case Nil
  show ?case by (simp add: assembly_step_refl)
next
  case (Cons x xs)
  have "assembly_step opts st (f x st)"
    by (rule assms)
  also have "assembly_step opts (f x st) (fold f xs (f x st))"
    by (rule Cons.IH)
  finally show ?case by simp
qed

lemma cache_set_new: "k \<notin> set (map fst es) \<Longrightarrow> cache_set k v es = es @ [(k, v)]"
  by (induction es) auto

lemma generate_mesh_step:
  assumes "w \<in> set (split_space (textContent opts))"
  shows "assembly_step opts st (snd (generate_mesh opts w st))"
proof (cases "map_of (textMeshCache st) w")
  case (Some c)
  then show ?thesis by (simp add: generate_mesh_def clone_step)
next
  case None
  then have new: "w \<notin> set (map fst (textMeshCache st))"
    by (simp add: map_of_eq_None_iff)
  define n where "n = nextRef st"
  define tm where "tm = \<lparr>mesh_text = w, mesh_fontSize = fontSize opts, mesh_font = fontUrl opts,
     mesh_maxWidth = rectWidth opts, mesh_color = textColor opts, mesh_position = (0, 0, 0),
     textRenderInfo = None\<rparr>"
  define st' where "st' = snd (generate_mesh opts w st)"
  have h: "heap st' = (heap st)(n \<mapsto> Text tm)"
    and c: "textMeshCache st' = textMeshCache st @ [(w, n)]"
    and t: "trace st' = trace st @ [Construct n]"
    and hl: "highlightedTextMesh st' = highlightedTextMesh st"
    using None new
    by (simp_all add: st'_def generate_mesh_def new_text_def alloc_def Let_def n_def tm_def
        cache_set_new)
  have "colors_default opts st'" if "colors_default opts st"
    using that by (auto simp add: colors_default_def h tm_def)
  moreover have "cache_inv st'" if "cache_inv st"
    using that new by (simp add: cache_inv_def c t)
  ultimately show ?thesis
    using assms by (auto simp add: assembly_step_def st'_def[symmetric] hl c cache_keys_def)
qed

lemma map_words_step:
  "set ws \<subseteq> set (split_space (textContent opts)) \<Longrightarrow>
   assembly_step opts st (snd (map_words opts ws st))"
proof (induction ws arbitrary: st)
  case Nil
  show ?case by (simp add: assembly_step_refl)
next
  case (Cons w ws)
  have "assembly_step opts st (snd (generate_mesh opts w st))"
    using Cons.prems by (simp add: generate_mesh_step)
  also have "assembly_step opts (snd (generate_mesh opts w st))
      (snd (map_words opts ws (snd (generate_mesh opts w st))))"
    using Cons by simp
  finally show ?case
    by (simp add: split_def Let_def)
qed

lemma generateTextMeshes_step: "assembly_step opts st (snd (generateTextMeshes opts st))"
proof -
  define r where "r = map_words opts (split_space (textContent opts)) st"
  have "assembly_step opts st (snd r)"
    by (simp add: r_def map_words_step)
  also have "assembly_step opts (snd r) (fold sync_call (fst r) (snd r))"
    by (rule fold_step) (rule sync_call_step)
  finally show ?thesis
    by (simp add: generateTextMeshes_def split_def Let_def r_def)
qed

lemma createTextMeshes_begin_step:
  "assembly_step opts st (snd (createTextMeshes_begin opts pos rot st))"
proof -
  define st1 where "st1 = snd (new_group pos rot st)"
  define st2 where
    "st2 = snd (new_group (- rectWidth opts * 0.5, rectWidth opts * 0.5, 0.001) (Euler 0 0 0) st1)"
  define st3 where
    "st3 = snd (new_group (rectWidth opts * 0.5, rectWidth opts * 0.5, - 0.001) (Euler 0 pi 0) st2)"
  have "assembly_step opts st st1"
    unfolding st1_def by (rule new_group_step)
  also have "assembly_step opts st1 st2"
    unfolding st2_def by (rule new_group_step)
  also have "assembly_step opts st2 st3"
    unfolding st3_def by (rule new_group_step)
  also have "assembly_step opts st3 (snd (generateTextMeshes opts st3))"
    by (rule generateTextMeshes_step)
  finally show ?thesis
    by (simp add: createTextMeshes_begin_def split_def Let_def st1_def st2_def st3_def)
qed

lemma createTextMeshes_resume_step:
  "assembly_step opts st (snd (createTextMeshes_resume opts measured p st))"
proof -
  define st1 where "st1 = fold (sync_done measured) (p_meshes p) st"
  define st2 where "st2 = layout_loop opts (p_meshes p) (p_front p) (p_back p) 0 0 st1"
  have "assembly_step opts st st1"
    unfolding st1_def by (rule fold_step) (rule sync_done_step)
  also have "assembly_step opts st1 st2"
    unfolding st2_def by (rule layout_loop_step)
  also have "assembly_step opts st2 (group_add (p_group p) [p_front p, p_back p] st2)"
    by (rule group_add_step)
  finally show ?thesis
    by (simp add: createTextMeshes_resume_def Let_def layoutTextMeshes_def st1_def st2_def)
qed

lemma resume_all_step:
  "assembly_step opts st (snd (resume_all opts measured tg ps st))"
proof (induction ps arbitrary: st)
  case Nil
  show ?case by (simp add: assembly_step_refl)
next
  case (Cons p ps)
  define st1 where "st1 = snd (createTextMeshes_resume opts measured p st)"
  define st2 where "st2 = group_add tg [fst (createTextMeshes_resume opts measured p st)] st1"
  have "assembly_step opts st st1"
    unfolding st1_def by (rule createTextMeshes_resume_step)
  also have "assembly_step opts st1 st2"
    unfolding st2_def by (rule group_add_step)
  also have "assembly_step opts st2 (snd (resume_all opts measured tg ps st2))"
    by (rule Cons.IH)
  finally show ?case
    by (simp add: split_def Let_def st1_def st2_def)
qed

lemma cell_body_step:
  "assembly_step opts (snd (snd s)) (snd (snd (cell_body opts rnd pm x y z s)))"
proof -
  obtain i ps st where s: "s = (i, ps, st)"
    by (cases s) auto
  define st1 where "st1 = snd (math_random rnd st)"
  define st2 where "st2 = snd (math_random rnd st1)"
  define pos where "pos = cell_position opts x y z
      (fst (math_random rnd st) * (rectWidth opts + gridOffset opts) * 0.5)"
  define a where "a = fst (math_random rnd st1) * pi * 2"
  define st3 where "st3 = setMatrixAt pm i (Matrix4 (Euler a a a) pos) st2"
  have "assembly_step opts st st1"
    unfolding st1_def by (rule math_random_step)
  also have "assembly_step opts st1 st2"
    unfolding st2_def by (rule math_random_step)
  also have "assembly_step opts st2 st3"
    unfolding st3_def by (rule setMatrixAt_step)
  also have "assembly_step opts st3 (snd (createTextMeshes_begin opts pos (Euler a a a) st3))"
    by (rule createTextMeshes_begin_step)
  finally show ?thesis
    by (simp add: s cell_body_def split_def Let_def st1_def st2_def st3_def pos_def a_def)
qed

lemma for_loop_fold: "for_loop i n body s = fold body [i..<n] s"
proof (induction i n body s rule: for_loop.induct)
  case (1 i n body s)
  show ?case
  proof (cases "i < n")
    case True
    then have "for_loop i n body s = for_loop (Suc i) n body (body i s)"
      by (subst for_loop.simps) simp
    also have "\<dots> = fold body [Suc i..<n] (body i s)"
      using 1 True by blast
    also have "\<dots> = fold body [i..<n] s"
      using True by (simp add: upt_conv_Cons)
    finally show ?thesis .
  next
    case False
    then show ?thesis by (subst for_loop.simps) simp
  qed
qed

lemma alloc_plain_step: "obj_color ob = None \<Longrightarrow> assembly_step opts st (snd (alloc ob st))"
  by (rule assembly_step_plain) (auto simp add: alloc_simps split: if_splits)

lemma for_loop_step:
  assumes "\<And>i s. assembly_step opts (snd (snd s)) (snd (snd (body i s)))"
  shows "assembly_step opts (snd (snd s)) (snd (snd (for_loop i n body s)))"
proof -
  have "assembly_step opts (snd (snd s)) (snd (snd (fold body xs s)))" for xs
  proof (induction xs arbitrary: s)
    case Nil
    show ?case by (simp add: assembly_step_refl)
  next
    case (Cons x xs)
    have "assembly_step opts (snd (snd s)) (snd (snd (body x s)))"
      by (rule assms)
    also have "assembly_step opts (snd (snd (body x s))) (snd (snd (fold body xs (body x s))))"
      by (rule Cons.IH)
    finally show ?case by simp
  qed
  then show ?thesis by (simp add: for_loop_fold)
qed

lemma cube_loops_step:
  "assembly_step opts (snd (snd s)) (snd (snd (cube_loops opts rnd pm s)))"
proof -
  have z: "assembly_step opts (snd (snd s'))
      (snd (snd (for_loop 0 (gridSize opts) (\<lambda>z. cell_body opts rnd pm x y z) s')))" for x y s'
    using cell_body_step by (rule for_loop_step)
  have y: "assembly_step opts (snd (snd s'))
      (snd (snd (for_loop 0 (gridSize opts)
         (\<lambda>y. for_loop 0 (gridSize opts) (\<lambda>z. cell_body opts rnd pm x y z)) s')))" for x s'
    using z by (rule for_loop_step)
  show ?thesis
    unfolding cube_loops_def using y by (rule for_loop_step)
qed

lemma cache_full_step: "assembly_step opts st st' \<Longrightarrow> cache_full opts st \<Longrightarrow> cache_full opts st'"
  by (auto simp add: assembly_step_def cache_full_def)

lemma generate_mesh_keys:
  "cache_keys (snd (generate_mesh opts w st)) = insert w (cache_keys st)"
proof (cases "map_of (textMeshCache st) w")
  case (Some c)
  then have "map_of (textMeshCache st) w \<noteq> None"
    by simp
  then have "w \<in> cache_keys st"
    unfolding cache_keys_def map_of_eq_None_iff by simp
  then show ?thesis
    using Some by (auto simp add: generate_mesh_def clone_simps cache_keys_def)
next
  case None
  then have "w \<notin> set (map fst (textMeshCache st))"
    by (simp add: map_of_eq_None_iff)
  then show ?thesis
    using None
    by (simp add: generate_mesh_def new_text_def alloc_def Let_def cache_set_new cache_keys_def)
qed

lemma map_words_keys:
  "cache_keys (snd (map_words opts ws st)) = set ws \<union> cache_keys st"
  by (induction ws arbitrary: st) (auto simp add: split_def Let_def generate_mesh_keys)

lemma fold_sync_call_cache: "textMeshCache (fold sync_call ms st) = textMeshCache st"
  by (induction ms arbitrary: st) (simp_all add: sync_call_simps)

lemma generateTextMeshes_full: "cache_full opts (snd (generateTextMeshes opts st))"
proof -
  define r where "r = map_words opts (split_space (textContent opts)) st"
  have "cache_keys (fold sync_call (fst r) (snd r)) = cache_keys (snd r)"
    by (simp add: cache_keys_def fold_sync_call_cache)
  moreover have "set (split_space (textContent opts)) \<subseteq> cache_keys (snd r)"
    by (simp add: r_def map_words_keys)
  ultimately show ?thesis
    by (simp add: cache_full_def generateTextMeshes_def split_def Let_def r_def)
qed

lemma cell_body_full: "cache_full opts (snd (snd (cell_body opts rnd pm x y z s)))"
proof -
  obtain i ps st where s: "s = (i, ps, st)"
    by (cases s) auto
  show ?thesis
    by (simp add: s cell_body_def split_def Let_def createTextMeshes_begin_def
        generateTextMeshes_full)
qed

lemma for_loop_full:
  assumes "\<And>i s. cache_full opts (snd (snd (body i s)))" and "i < n"
  shows "cache_full opts (snd (snd (for_loop i n body s)))"
proof -
  from \<open>i < n\<close> obtain m where n: "n = Suc m" "i \<le> m"
    by (cases n) auto
  then have "[i..<n] = [i..<m] @ [m]"
    by simp
  then show ?thesis
    using assms(1) by (simp add: for_loop_fold)
qed

lemma cube_loops_full:
  assumes "0 < gridSize opts"
  shows "cache_full opts (snd (snd (cube_loops opts rnd pm s)))"
proof -
  have z: "cache_full opts
      (snd (snd (for_loop 0 (gridSize opts) (\<lambda>z. cell_body opts rnd pm x y z) s')))" for x y s'
    using cell_body_full assms by (rule for_loop_full)
  have y: "cache_full opts
      (snd (snd (for_loop 0 (gridSize opts)
         (\<lambda>y. for_loop 0 (gridSize opts) (\<lambda>z. cell_body opts rnd pm x y z)) s')))" for x s'
    using z assms by (rule for_loop_full)
  show ?thesis
    unfolding cube_loops_def using y assms by (rule for_loop_full)
qed

lemma cube_begin_step:
  "assembly_step opts st (snd (snd (snd (cube_begin opts rnd st))))"
proof -
  define st1 where "st1 = snd (alloc (InstancedMesh \<lparr>inst_count = gridSize opts ^ 3,
     instanceMatrix = Map.empty\<rparr>) st)"
  define pm where "pm = nextRef st"
  define st2 where "st2 = snd (new_group (0, 0, 0) (Euler 0 0 0) st1)"
  define s3 where "s3 = cube_loops opts rnd pm (0, [], st2)"
  define st4 where "st4 = (snd (snd s3))\<lparr>interactableMeshes := interactableMeshes (snd (snd s3)) @ [pm]\<rparr>"
  have "assembly_step opts st st1"
    unfolding st1_def by (rule alloc_plain_step) simp
  also have "assembly_step opts st1 st2"
    unfolding st2_def by (rule new_group_step)
  also have "assembly_step opts st2 (snd (snd s3))"
    using cube_loops_step[of opts "(0, [], st2)" rnd pm] by (simp add: s3_def)
  also have "assembly_step opts (snd (snd s3)) st4"
    unfolding st4_def by (rule registry_step)
  also have "assembly_step opts st4 (st4\<lparr>scene := scene st4 @ [pm, nextRef st1]\<rparr>)"
    by (rule scene_step)
  finally show ?thesis
    by (simp add: cube_begin_def split_def Let_def alloc_simps new_group_def st1_def st2_def
        s3_def st4_def pm_def)
qed

lemma cube_begin_full:
  assumes "0 < gridSize opts"
  shows "cache_full opts (snd (snd (snd (cube_begin opts rnd st))))"
proof -
  define st1 where "st1 = snd (alloc (InstancedMesh \<lparr>inst_count = gridSize opts ^ 3,
     instanceMatrix = Map.empty\<rparr>) st)"
  define st2 where "st2 = snd (new_group (0, 0, 0) (Euler 0 0 0) st1)"
  define s3 where "s3 = cube_loops opts rnd (nextRef st) (0, [], st2)"
  have "cache_full opts (snd (snd s3))"
    unfolding s3_def using assms by (rule cube_loops_full)
  then show ?thesis
    by (simp add: cube_begin_def split_def Let_def alloc_simps new_group_def st1_def st2_def
        s3_def cache_full_def cache_keys_def)
qed

lemma createCubeOfPlanes_step:
  "assembly_step opts st (snd (createCubeOfPlanes opts rnd measured st))"
proof -
  obtain pm tg ps st1 where b: "cube_begin opts rnd st = (pm, tg, ps, st1)"
    by (cases "cube_begin opts rnd st") auto
  have "assembly_step opts st st1"
    using cube_begin_step[of opts st rnd] by (simp add: b)
  also have "assembly_step opts st1 (snd (resume_all opts measured tg ps st1))"
    by (rule resume_all_step)
  finally show ?thesis
    by (simp add: createCubeOfPlanes_def b)
qed

lemma createCubeOfPlanes_full:
  "0 < gridSize opts \<Longrightarrow> cache_full opts (snd (createCubeOfPlanes opts rnd measured st))"
proof -
  assume g: "0 < gridSize opts"
  obtain pm tg ps st1 where b: "cube_begin opts rnd st = (pm, tg, ps, st1)"
    by (cases "cube_begin opts rnd st") auto
  have "cache_full opts st1"
    using cube_begin_full[OF g, of rnd st] by (simp add: b)
  then have "cache_full opts (snd (resume_all opts measured tg ps st1))"
    using resume_all_step cache_full_step by blast
  then show ?thesis
    by (simp add: createCubeOfPlanes_def b)
qed

lemma initial_app_inv:
  "colors_default opts initial_app" "cache_inv initial_app" "cache_keys initial_app = {}"
  "highlightedTextMesh initial_app = Undefined"
  by (simp_all add: colors_default_def cache_inv_def cache_keys_def initial_app_def)

lemma assembled_facts:
  "highlightedTextMesh (snd (createCubeOfPlanes opts rnd measured initial_app)) = Undefined"
  "colors_default opts (snd (createCubeOfPlanes opts rnd measured initial_app))"
  "cache_inv (snd (createCubeOfPlanes opts rnd measured initial_app))"
  "cache_keys (snd (createCubeOfPlanes opts rnd measured initial_app))
     \<subseteq> set (split_space (textContent opts))"
proof -
  define st where "st = snd (createCubeOfPlanes opts rnd measured initial_app)"
  have s: "assembly_step opts initial_app st"
    unfolding st_def by (rule createCubeOfPlanes_step)
  show "highlightedTextMesh (snd (createCubeOfPlanes opts rnd measured initial_app)) = Undefined"
    using s initial_app_inv(4) unfolding assembly_step_def st_def by simp
  show "colors_default opts (snd (createCubeOfPlanes opts rnd measured initial_app))"
    using s initial_app_inv(1) unfolding assembly_step_def st_def by blast
  show "cache_inv (snd (createCubeOfPlanes opts rnd measured initial_app))"
    using s initial_app_inv(2) unfolding assembly_step_def st_def by blast
  show "cache_keys (snd (createCubeOfPlanes opts rnd measured initial_app))
     \<subseteq> set (split_space (textContent opts))"
    using s initial_app_inv(3) unfolding assembly_step_def st_def by blast
qed

lemma reachable_highlight_inv:
  assumes "textColor opts \<noteq> highlightedTextColor opts" and "reachable opts st"
  shows "highlight_inv opts st"
  using assms(2)
proof (induction rule: reachable.induct)
  case (assembled rnd measured)
  define st where "st = snd (createCubeOfPlanes opts rnd measured initial_app)"
  have c: "colors_default opts st"
    unfolding st_def by (rule assembled_facts)
  have "\<not> carries st (highlightedTextColor opts) r" for r
  proof (cases "heap st r")
    case None
    then show ?thesis by (simp add: carries_def)
  next
    case (Some ob)
    with c have "obj_color ob = None \<or> obj_color ob = Some (textColor opts)"
      unfolding colors_default_def by blast
    with assms(1) Some show ?thesis by (auto simp add: carries_def)
  qed
  then show ?case
    unfolding st_def highlight_inv_def by blast
next
  case (frame st intersects)
  then show ?case
    using assms(1) by (simp add: processIntersections_inv)
qed

lemma reachable_registered:
  assumes "reachable opts st" and "highlightedTextMesh st = Obj r"
  shows "r \<in> set (interactableMeshes st)"
  using assms
proof (induction arbitrary: r rule: reachable.induct)
  case (assembled rnd measured)
  have "highlightedTextMesh (snd (createCubeOfPlanes opts rnd measured initial_app)) = Undefined"
    by (rule assembled_facts)
  with assembled.prems show ?case by simp
next
  case (frame st intersects)
  show ?case
  proof (cases "highlightedTextMesh st = hovered_of intersects")
    case True
    with frame show ?thesis by (simp add: processIntersections_def)
  next
    case False
    from frame.prems have "hovered_of intersects = Obj r"
      by (simp add: processIntersections_highlighted)
    then have "r \<in> set intersects"
      by (auto simp add: hovered_of_def split: list.splits)
    with frame.hyps(2) show ?thesis
      by (auto simp add: processIntersections_registry)
  qed
qed

section \<open>The loops over the cells\<close>

lemma extends_refl: "extends st st"
  by (simp add: extends_def)

lemma extends_trans [trans]: "extends st st1 \<Longrightarrow> extends st1 st2 \<Longrightarrow> extends st st2"
  unfolding extends_def by auto

lemma extends_obs:
  assumes "extends st st'" and "r < nextRef st"
  shows "is_group st' r = is_group st r" "kids st' r = kids st r"
    "plane_of st' r = plane_of st r" "is_text st' r = is_text st r"
  using assms by (simp_all add: extends_def is_group_def kids_def plane_of_def is_text_def)

lemma alloc_extends: "extends st (snd (alloc ob st))"
  by (simp add: extends_def alloc_simps matrix_calls_def)

lemma new_group_extends: "extends st (snd (new_group pos rot st))"
  by (simp add: new_group_def alloc_extends)

lemma clone_extends: "extends st (snd (clone r st))"
  by (simp add: extends_def clone_simps matrix_calls_def)

lemma sync_call_extends: "extends st (sync_call r st)"
  by (simp add: extends_def sync_call_simps matrix_calls_def)

lemma math_random_extends: "extends st (snd (math_random rnd st))"
  by (simp add: extends_def math_random_simps matrix_calls_def)

lemma generate_mesh_extends: "extends st (snd (generate_mesh opts w st))"
proof (cases "map_of (textMeshCache st) w")
  case None
  then show ?thesis
    by (simp add: generate_mesh_def new_text_def alloc_def Let_def extends_def matrix_calls_def)
next
  case (Some c)
  then show ?thesis
    using clone_extends[of st c] by (simp add: generate_mesh_def)
qed

lemma map_words_extends: "extends st (snd (map_words opts ws st))"
proof (induction ws arbitrary: st)
  case Nil
  show ?case by (simp add: extends_refl)
next
  case (Cons w ws)
  have "extends st (snd (generate_mesh opts w st))"
    by (rule generate_mesh_extends)
  also have "extends (snd (generate_mesh opts w st))
      (snd (map_words opts ws (snd (generate_mesh opts w st))))"
    by (rule Cons.IH)
  finally show ?case by (simp add: split_def Let_def)
qed

lemma fold_sync_call_extends: "extends st (fold sync_call ms st)"
proof (induction ms arbitrary: st)
  case Nil
  show ?case by (simp add: extends_refl)
next
  case (Cons m ms)
  have "extends st (sync_call m st)"
    by (rule sync_call_extends)
  also have "extends (sync_call m st) (fold sync_call ms (sync_call m st))"
    by (rule Cons.IH)
  finally show ?case by simp
qed

lemma generateTextMeshes_extends: "extends st (snd (generateTextMeshes opts st))"
proof -
  define r where "r = map_words opts (split_space (textContent opts)) st"
  have "extends st (snd r)"
    unfolding r_def by (rule map_words_extends)
  also have "extends (snd r) (fold sync_call (fst r) (snd r))"
    by (rule fold_sync_call_extends)
  finally show ?thesis
    by (simp add: generateTextMeshes_def split_def Let_def r_def)
qed

text \<open>The first step of a cell: three fresh, empty groups, and nothing else is touched.\<close>

lemma createTextMeshes_begin_groups:
  fixes st :: app and n :: nat
  defines "n \<equiv> nextRef st"
  shows "extends st (snd (createTextMeshes_begin opts pos rot st))"
    and "triple (fst (createTextMeshes_begin opts pos rot st)) = [n, Suc n, Suc (Suc n)]"
    and "Suc (Suc (Suc n)) \<le> nextRef (snd (createTextMeshes_begin opts pos rot st))"
    and "\<forall>r\<in>set [n, Suc n, Suc (Suc n)].
           is_group (snd (createTextMeshes_begin opts pos rot st)) r \<and>
           kids (snd (createTextMeshes_begin opts pos rot st)) r = []"
proof -
  define st1 where "st1 = snd (new_group pos rot st)"
  define st2 where
    "st2 = snd (new_group (- rectWidth opts * 0.5, rectWidth opts * 0.5, 0.001) (Euler 0 0 0) st1)"
  define st3 where
    "st3 = snd (new_group (rectWidth opts * 0.5, rectWidth opts * 0.5, - 0.001) (Euler 0 pi 0) st2)"
  define st4 where "st4 = snd (generateTextMeshes opts st3)"
  have res: "snd (createTextMeshes_begin opts pos rot st) = st4"
    by (simp add: createTextMeshes_begin_def split_def Let_def st1_def st2_def st3_def st4_def)
  have n3: "nextRef st3 = Suc (Suc (Suc n))"
    by (simp add: st3_def st2_def st1_def new_group_def alloc_simps n_def)
  have e34: "extends st3 st4"
    unfolding st4_def by (rule generateTextMeshes_extends)
  have "extends st st1"
    unfolding st1_def by (rule new_group_extends)
  also have "extends st1 st2"
    unfolding st2_def by (rule new_group_extends)
  also have "extends st2 st3"
    unfolding st3_def by (rule new_group_extends)
  also note e34
  finally show "extends st (snd (createTextMeshes_begin opts pos rot st))"
    unfolding res .
  show "triple (fst (createTextMeshes_begin opts pos rot st)) = [n, Suc n, Suc (Suc n)]"
    by (simp add: createTextMeshes_begin_def split_def Let_def triple_def new_group_def
        alloc_simps n_def)
  show "Suc (Suc (Suc n)) \<le> nextRef (snd (createTextMeshes_begin opts pos rot st))"
    using e34 n3 unfolding res extends_def by simp
  have g3: "is_group st3 r \<and> kids st3 r = []" if "r \<in> set [n, Suc n, Suc (Suc n)]" for r
    using that
    by (auto simp add: st3_def st2_def st1_def new_group_def alloc_simps n_def is_group_def
        kids_def)
  show "\<forall>r\<in>set [n, Suc n, Suc (Suc n)].
           is_group (snd (createTextMeshes_begin opts pos rot st)) r \<and>
           kids (snd (createTextMeshes_begin opts pos rot st)) r = []"
    unfolding res
  proof
    fix r assume r: "r \<in> set [n, Suc n, Suc (Suc n)]"
    then have "r < nextRef st3"
      using n3 by auto
    with e34 g3[OF r] show "is_group st4 r \<and> kids st4 r = []"
      by (simp add: extends_obs)
  qed
qed

lemma obj_setMatrixAt_obs [simp]:
  "obj_is_group (obj_setMatrixAt i m ob) = obj_is_group ob"
  "obj_children (obj_setMatrixAt i m ob) = obj_children ob"
  "obj_is_text (obj_setMatrixAt i m ob) = obj_is_text ob"
  by (cases ob; simp)+

lemma setMatrixAt_obs:
  "is_group (setMatrixAt pm i m st) r = is_group st r"
  "kids (setMatrixAt pm i m st) r = kids st r"
  by (cases "heap st pm"; simp add: is_group_def kids_def setMatrixAt_simps)+

lemma setMatrixAt_plane:
  "plane_of st pm = Some im \<Longrightarrow> i < inst_count im \<Longrightarrow>
   plane_of (setMatrixAt pm i m st) pm = Some (im\<lparr>instanceMatrix := (instanceMatrix im)(i \<mapsto> m)\<rparr>)"
  by (cases "heap st pm"; cases "the (heap st pm)")
    (simp_all add: plane_of_def setMatrixAt_simps)

lemma cell_body_inv:
  assumes inv: "cube_inv opts rnd calls pm tg seen s" and room: "length seen < gridSize opts ^ 3"
  shows "cube_inv opts rnd calls pm tg (seen @ [(x, y, z)]) (cell_body opts rnd pm x y z s)"
proof -
  obtain i ps st where s: "s = (i, ps, st)"
    by (cases s) auto
  from inv obtain im where i: "i = length seen" "length ps = i" "pm < nextRef st" "tg < nextRef st"
    and im: "plane_of st pm = Some im" "inst_count im = gridSize opts ^ 3"
      "dom (instanceMatrix im) = {..<i}"
      "\<forall>k<i. \<exists>m. instanceMatrix im k = Some m \<and> jittered opts rnd (seen ! k) m"
    and d: "distinct (tg # concat (map triple ps))"
    and g: "\<forall>r\<in>set (tg # concat (map triple ps)). r < nextRef st \<and> is_group st r \<and> kids st r = []"
    and c: "matrix_calls st = calls + i"
    unfolding cube_inv_def s by auto
  define st1 where "st1 = snd (math_random rnd st)"
  define st2 where "st2 = snd (math_random rnd st1)"
  define pos where "pos = cell_position opts x y z
      (rnd (randomCalls st) * (rectWidth opts + gridOffset opts) * 0.5)"
  define a where "a = rnd (Suc (randomCalls st)) * pi * 2"
  define m where "m = Matrix4 (Euler a a a) pos"
  define st3 where "st3 = setMatrixAt pm i m st2"
  define b where "b = createTextMeshes_begin opts pos (Euler a a a) st3"
  have res: "cell_body opts rnd pm x y z s = (Suc i, ps @ [fst b], snd b)"
    by (simp add: s cell_body_def split_def Let_def st1_def st2_def st3_def pos_def a_def m_def
        b_def math_random_simps)
  have h2: "heap st2 = heap st" "nextRef st2 = nextRef st"
    by (simp_all add: st2_def st1_def math_random_simps)
  have n3: "nextRef st3 = nextRef st"
    by (simp add: st3_def setMatrixAt_simps h2)
  have c3: "matrix_calls st3 = calls + Suc i"
    using c by (simp add: matrix_calls_def st3_def setMatrixAt_simps st2_def st1_def
        math_random_simps)
  have p2: "plane_of st2 pm = Some im"
    using im(1) by (simp add: plane_of_def h2)
  have p3: "plane_of st3 pm = Some (im\<lparr>instanceMatrix := (instanceMatrix im)(i \<mapsto> m)\<rparr>)"
    unfolding st3_def using p2 room by (simp add: setMatrixAt_plane im(2) i(1))
  have "is_group st2 r = is_group st r" "kids st2 r = kids st r" for r
    by (simp_all add: is_group_def kids_def h2)
  then have obs3: "is_group st3 r = is_group st r" "kids st3 r = kids st r" for r
    by (simp_all add: st3_def setMatrixAt_obs)
  define n where "n = nextRef st"
  have e: "extends st3 (snd b)"
    and t: "triple (fst b) = [n, Suc n, Suc (Suc n)]"
    and nb: "Suc (Suc (Suc n)) \<le> nextRef (snd b)"
    and gb: "\<forall>r\<in>set [n, Suc n, Suc (Suc n)]. is_group (snd b) r \<and> kids (snd b) r = []"
    using createTextMeshes_begin_groups[where st = st3 and opts = opts and pos = pos
        and rot = "Euler a a a"]
    unfolding b_def n3 n_def by blast+
  have old: "r < nextRef (snd b) \<and> is_group (snd b) r \<and> kids (snd b) r = []"
    if "r \<in> set (tg # concat (map triple ps))" for r
  proof -
    from g that have r: "r < nextRef st" "is_group st r" "kids st r = []"
      by blast+
    then have "r < nextRef st3"
      by (simp add: n3)
    with e r show ?thesis
      using nb by (simp add: extends_obs obs3 n_def)
  qed
  have "plane_of (snd b) pm = plane_of st3 pm"
    using e i(3) by (simp add: extends_obs n3)
  then have pb: "plane_of (snd b) pm = Some (im\<lparr>instanceMatrix := (instanceMatrix im)(i \<mapsto> m)\<rparr>)"
    by (simp add: p3)
  have j: "jittered opts rnd (x, y, z) m"
    unfolding jittered_def m_def pos_def a_def by auto
  have mats: "\<exists>m'. ((instanceMatrix im)(i \<mapsto> m)) k = Some m' \<and>
      jittered opts rnd ((seen @ [(x, y, z)]) ! k) m'" if "k < Suc i" for k
  proof (cases "k = i")
    case True
    then show ?thesis using j i(1) by simp
  next
    case False
    with that have "k < i" by simp
    with im(4) i(1) False show ?thesis by (simp add: nth_append)
  qed
  have dist: "distinct (tg # concat (map triple (ps @ [fst b])))"
  proof -
    have "r < n" if "r \<in> set (tg # concat (map triple ps))" for r
      using g that unfolding n_def by blast
    then have "n \<notin> set (tg # concat (map triple ps))"
      "Suc n \<notin> set (tg # concat (map triple ps))"
      "Suc (Suc n) \<notin> set (tg # concat (map triple ps))"
      by fastforce+
    with d show ?thesis by (auto simp add: t)
  qed
  have all: "\<forall>r\<in>set (tg # concat (map triple (ps @ [fst b]))).
      r < nextRef (snd b) \<and> is_group (snd b) r \<and> kids (snd b) r = []"
  proof
    fix r assume "r \<in> set (tg # concat (map triple (ps @ [fst b])))"
    then consider "r \<in> set (tg # concat (map triple ps))" | "r \<in> set [n, Suc n, Suc (Suc n)]"
      by (auto simp add: t)
    then show "r < nextRef (snd b) \<and> is_group (snd b) r \<and> kids (snd b) r = []"
    proof cases
      case 1
      then show ?thesis by (rule old)
    next
      case 2
      with gb nb show ?thesis by auto
    qed
  qed
  have "matrix_calls (snd b) = calls + Suc i"
    using e c3 by (simp add: extends_def)
  moreover have "pm < nextRef (snd b)" "tg < nextRef (snd b)"
    using i(3,4) nb unfolding n_def by simp_all
  moreover have "dom ((instanceMatrix im)(i \<mapsto> m)) = {..<Suc i}"
    using im(3) by auto
  ultimately show ?thesis
    unfolding res cube_inv_def
    using i(1,2) pb im(2) mats dist all by (simp del: set_concat set_simps distinct.simps)
qed

lemma fold_over_concat: "fold f (concat xss) = fold (fold f) xss"
  by (induction xss) simp_all

lemma for_loop_is_fold: "for_loop i n body = fold body [i..<n]"
  by (rule ext) (rule for_loop_fold)

lemma cube_loops_cells:
  "cube_loops opts rnd pm s =
   fold (\<lambda>c. case c of (x, y, z) \<Rightarrow> cell_body opts rnd pm x y z) (cells (gridSize opts)) s"
  by (simp add: cube_loops_def for_loop_is_fold cells_def fold_over_concat fold_map comp_def)

lemma length_cells: "length (cells n) = n ^ 3"
  by (simp add: cells_def length_concat comp_def sum_list_triv power3_eq_cube)

lemma in_cells: "x < n \<Longrightarrow> y < n \<Longrightarrow> z < n \<Longrightarrow> (x, y, z) \<in> set (cells n)"
  by (force simp add: cells_def)

lemma cells_inv:
  assumes "cube_inv opts rnd calls pm tg seen s"
    and "length seen + length cs \<le> gridSize opts ^ 3"
  shows "cube_inv opts rnd calls pm tg (seen @ cs)
           (fold (\<lambda>c. case c of (x, y, z) \<Rightarrow> cell_body opts rnd pm x y z) cs s)"
  using assms
proof (induction cs arbitrary: seen s)
  case Nil
  then show ?case by simp
next
  case (Cons c cs)
  obtain x y z where c: "c = (x, y, z)"
    by (cases c) auto
  have "cube_inv opts rnd calls pm tg (seen @ [(x, y, z)]) (cell_body opts rnd pm x y z s)"
    using Cons.prems by (intro cell_body_inv) simp_all
  then have "cube_inv opts rnd calls pm tg ((seen @ [(x, y, z)]) @ cs)
      (fold (\<lambda>c. case c of (x, y, z) \<Rightarrow> cell_body opts rnd pm x y z) cs
         (cell_body opts rnd pm x y z s))"
    using Cons.prems by (intro Cons.IH) simp_all
  then show ?case by (simp add: c)
qed

lemma cell_body_registry:
  "interactableMeshes (snd (snd (cell_body opts rnd pm x y z s))) = interactableMeshes (snd (snd s))"
  "scene (snd (snd (cell_body opts rnd pm x y z s))) = scene (snd (snd s))"
proof -
  obtain i ps st where s: "s = (i, ps, st)"
    by (cases s) auto
  define st3 where "st3 = setMatrixAt pm i
     (Matrix4 (Euler (fst (math_random rnd (snd (math_random rnd st))) * pi * 2)
                     (fst (math_random rnd (snd (math_random rnd st))) * pi * 2)
                     (fst (math_random rnd (snd (math_random rnd st))) * pi * 2))
        (cell_position opts x y z
           (fst (math_random rnd st) * (rectWidth opts + gridOffset opts) * 0.5)))
     (snd (math_random rnd (snd (math_random rnd st))))"
  have r3: "interactableMeshes st3 = interactableMeshes st" "scene st3 = scene st"
    by (simp_all add: st3_def setMatrixAt_simps math_random_simps)
  have "extends st3 (snd (createTextMeshes_begin opts pos rot st3))" for pos rot
    by (rule createTextMeshes_begin_groups)
  then have "interactableMeshes (snd (createTextMeshes_begin opts pos rot st3)) = interactableMeshes st"
    "scene (snd (createTextMeshes_begin opts pos rot st3)) = scene st" for pos rot
    using r3 by (simp_all add: extends_def)
  then show
    "interactableMeshes (snd (snd (cell_body opts rnd pm x y z s))) = interactableMeshes (snd (snd s))"
    "scene (snd (snd (cell_body opts rnd pm x y z s))) = scene (snd (snd s))"
    by (simp_all add: s cell_body_def split_def Let_def st3_def)
qed

lemma cells_registry:
  "interactableMeshes (snd (snd (fold (\<lambda>c. case c of (x, y, z) \<Rightarrow> cell_body opts rnd pm x y z) cs s)))
     = interactableMeshes (snd (snd s)) \<and>
   scene (snd (snd (fold (\<lambda>c. case c of (x, y, z) \<Rightarrow> cell_body opts rnd pm x y z) cs s)))
     = scene (snd (snd s))"
  by (induction cs arbitrary: s) (auto simp add: cell_body_registry)

lemma cube_inv_heap_cong:
  "heap st' = heap st \<Longrightarrow> nextRef st' = nextRef st \<Longrightarrow>
   trace st' = trace st \<Longrightarrow>
   cube_inv opts rnd calls pm tg seen (i, ps, st') = cube_inv opts rnd calls pm tg seen (i, ps, st)"
  by (simp add: cube_inv_def plane_of_def is_group_def kids_def matrix_calls_def)

text \<open>The state when \<^verbatim>\<open>#createCubeOfPlanes\<close> has run its loops: the plane mesh and the text
  group are the first two objects it allocates.\<close>

lemma cube_begin_inv:
  assumes "cube_begin opts rnd st = (pm, tg, ps, st1)"
  shows "pm = nextRef st" "tg = Suc (nextRef st)"
    "cube_inv opts rnd (matrix_calls st) pm tg (cells (gridSize opts)) (gridSize opts ^ 3, ps, st1)"
    "interactableMeshes st1 = interactableMeshes st @ [pm]"
    "scene st1 = scene st @ [pm, tg]"
proof -
  define st1' where "st1' = snd (alloc (InstancedMesh \<lparr>inst_count = gridSize opts ^ 3,
     instanceMatrix = Map.empty\<rparr>) st)"
  define st2 where "st2 = snd (new_group (0, 0, 0) (Euler 0 0 0) st1')"
  define s3 where "s3 = cube_loops opts rnd (nextRef st) (0, [], st2)"
  have res: "cube_begin opts rnd st =
     (nextRef st, Suc (nextRef st), fst (snd s3),
      (snd (snd s3))\<lparr>interactableMeshes := interactableMeshes (snd (snd s3)) @ [nextRef st],
                      scene := scene (snd (snd s3)) @ [nextRef st, Suc (nextRef st)]\<rparr>)"
    by (simp add: cube_begin_def split_def Let_def alloc_simps new_group_def st1'_def st2_def
        s3_def)
  from assms res show pm: "pm = nextRef st" and tg: "tg = Suc (nextRef st)"
    by simp_all
  from assms res have ps: "ps = fst (snd s3)"
    and st1: "st1 = (snd (snd s3))\<lparr>interactableMeshes := interactableMeshes (snd (snd s3)) @ [pm],
                      scene := scene (snd (snd s3)) @ [pm, tg]\<rparr>"
    by (simp_all add: pm tg)
  have init: "cube_inv opts rnd (matrix_calls st) pm tg [] (0, [], st2)"
    by (simp add: cube_inv_def pm tg st2_def st1'_def new_group_def alloc_simps plane_of_def
        is_group_def kids_def matrix_calls_def)
  have "cube_inv opts rnd (matrix_calls st) pm tg ([] @ cells (gridSize opts)) s3"
    unfolding s3_def cube_loops_cells pm[symmetric]
    using init by (rule cells_inv) (simp add: length_cells)
  moreover obtain i ps' st3 where s3: "s3 = (i, ps', st3)"
    by (cases s3) auto
  ultimately have "cube_inv opts rnd (matrix_calls st) pm tg (cells (gridSize opts)) (i, ps', st3)"
    by simp
  moreover from this have "i = gridSize opts ^ 3"
    by (simp add: cube_inv_def length_cells)
  ultimately have inv3:
    "cube_inv opts rnd (matrix_calls st) pm tg (cells (gridSize opts)) (gridSize opts ^ 3, ps', st3)"
    by simp
  have "cube_inv opts rnd (matrix_calls st) pm tg (cells (gridSize opts)) (gridSize opts ^ 3, ps, st1) =
        cube_inv opts rnd (matrix_calls st) pm tg (cells (gridSize opts)) (gridSize opts ^ 3, ps', st3)"
    unfolding ps by (simp add: s3) (rule cube_inv_heap_cong, simp_all add: st1 s3)
  with inv3 show "cube_inv opts rnd (matrix_calls st) pm tg (cells (gridSize opts)) (gridSize opts ^ 3, ps, st1)"
    by simp
  have reg: "interactableMeshes (snd (snd s3)) = interactableMeshes st"
    "scene (snd (snd s3)) = scene st"
    unfolding s3_def cube_loops_cells
    by (simp_all add: cells_registry st2_def st1'_def new_group_def alloc_simps)
  show "interactableMeshes st1 = interactableMeshes st @ [pm]" "scene st1 = scene st @ [pm, tg]"
    by (simp_all add: st1 reg)
qed

section \<open>The continuations of the cells\<close>

lemma obj_instanced_obs [simp]:
  "obj_instanced (obj_set_position v ob) = obj_instanced ob"
  "obj_instanced (obj_add cs ob) = obj_instanced ob"
  "obj_instanced (obj_set_info i ob) = obj_instanced ob"
  by (cases ob; simp)+

lemma obj_set_info_obs [simp]:
  "obj_is_group (obj_set_info i ob) = obj_is_group ob"
  "obj_children (obj_set_info i ob) = obj_children ob"
  "obj_is_text (obj_set_info i ob) = obj_is_text ob"
  by (cases ob; simp)+

lemma obj_instanced_clone: "obj_is_text ob \<Longrightarrow> obj_instanced (clone_obj ob) = None"
  by (cases ob) simp_all

lemma kinds_kept_refl: "kinds_kept st st"
  by (simp add: kinds_kept_def)

lemma kinds_kept_trans [trans]:
  "kinds_kept st st1 \<Longrightarrow> kinds_kept st1 st2 \<Longrightarrow> kinds_kept st st2"
  unfolding kinds_kept_def by force

lemma sync_done_kept: "kinds_kept st (sync_done measured r st)"
  by (cases "heap st r")
    (simp_all add: kinds_kept_def sync_done_simps is_group_def plane_of_def matrix_calls_def)

lemma sync_done_kids: "kids (sync_done measured r st) r' = kids st r'"
  by (cases "heap st r") (simp_all add: kids_def sync_done_simps)

lemma fold_sync_done_kept: "kinds_kept st (fold (sync_done measured) ms st)"
proof (induction ms arbitrary: st)
  case Nil
  show ?case by (simp add: kinds_kept_refl)
next
  case (Cons m ms)
  have "kinds_kept st (sync_done measured m st)"
    by (rule sync_done_kept)
  also have "kinds_kept (sync_done measured m st)
      (fold (sync_done measured) ms (sync_done measured m st))"
    by (rule Cons.IH)
  finally show ?case by simp
qed

lemma fold_sync_done_kids: "kids (fold (sync_done measured) ms st) r = kids st r"
  by (induction ms arbitrary: st) (simp_all add: sync_done_kids)

lemma group_add_kept: "kinds_kept st (group_add g cs st)"
  by (cases "heap st g")
    (simp_all add: kinds_kept_def group_add_simps is_group_def plane_of_def matrix_calls_def)

lemma obj_children_non_group: "\<not> obj_is_group ob \<Longrightarrow> obj_children ob = []"
  by (cases ob) simp_all

lemma group_add_kids:
  "kids (group_add g cs st) r = (if r = g \<and> is_group st g then kids st g @ cs else kids st r)"
  by (cases "heap st g")
    (auto simp add: kids_def is_group_def group_add_simps obj_children_non_group)

lemma place_plane:
  "r < nextRef st \<Longrightarrow> plane_of (place m fg bg x y st) r = plane_of st r"
  by (auto simp add: place_def Let_def split_def prim_simps plane_of_def split: option.splits)

lemma place_kept: "kinds_kept st (place m fg bg x y st)"
  by (auto simp add: kinds_kept_def place_fields place_is_group place_plane matrix_calls_def)

lemma layout_loop_kept: "kinds_kept st (layout_loop opts ms fg bg x y st)"
proof (induction ms arbitrary: x y st)
  case Nil
  show ?case by (simp add: kinds_kept_refl)
next
  case (Cons m ms)
  define w where "w = mesh_width st m"
  define x1 where "x1 = (if x + w > rectWidth opts then 0 else x)"
  define y1 where
    "y1 = (if x + w > rectWidth opts then y - fontSize opts * lineHeight opts else y)"
  show ?case
  proof (cases "y1 - fontSize opts * lineHeight opts < - rectWidth opts")
    case True
    then show ?thesis
      by (simp add: Let_def w_def x1_def y1_def kinds_kept_refl)
  next
    case False
    have "kinds_kept st (place m fg bg x1 y1 st)"
      by (rule place_kept)
    also have "kinds_kept (place m fg bg x1 y1 st)
        (layout_loop opts ms fg bg (x1 + w + spaceWidth opts) y1 (place m fg bg x1 y1 st))"
      by (rule Cons.IH)
    finally show ?thesis
      using False by (simp add: Let_def w_def x1_def y1_def)
  qed
qed

lemma resume_one_kept: "kinds_kept st (resume_one opts measured tg p st)"
proof -
  define st1 where "st1 = fold (sync_done measured) (p_meshes p) st"
  define st2 where "st2 = layout_loop opts (p_meshes p) (p_front p) (p_back p) 0 0 st1"
  define st3 where "st3 = group_add (p_group p) [p_front p, p_back p] st2"
  have "kinds_kept st st1"
    unfolding st1_def by (rule fold_sync_done_kept)
  also have "kinds_kept st1 st2"
    unfolding st2_def by (rule layout_loop_kept)
  also have "kinds_kept st2 st3"
    unfolding st3_def by (rule group_add_kept)
  also have "kinds_kept st3 (group_add tg [p_group p] st3)"
    by (rule group_add_kept)
  finally show ?thesis
    by (simp add: resume_one_def createTextMeshes_resume_def Let_def layoutTextMeshes_def
        st1_def st2_def st3_def)
qed

lemma resume_one_kids:
  assumes "r < nextRef st" and "r \<noteq> p_front p" and "r \<noteq> p_back p"
    and "is_group st (p_group p)" and "p_group p < nextRef st"
    and "is_group st tg" and "tg < nextRef st" and "tg \<noteq> p_group p"
  shows "kids (resume_one opts measured tg p st) r =
           kids st r @ (if r = p_group p then [p_front p, p_back p] else []) @
           (if r = tg then [p_group p] else [])"
proof -
  define st1 where "st1 = fold (sync_done measured) (p_meshes p) st"
  define st2 where "st2 = layout_loop opts (p_meshes p) (p_front p) (p_back p) 0 0 st1"
  define st3 where "st3 = group_add (p_group p) [p_front p, p_back p] st2"
  have res: "resume_one opts measured tg p st = group_add tg [p_group p] st3"
    by (simp add: resume_one_def createTextMeshes_resume_def Let_def layoutTextMeshes_def
        st1_def st2_def st3_def)
  have k01: "kinds_kept st st1"
    unfolding st1_def by (rule fold_sync_done_kept)
  have k12: "kinds_kept st1 st2"
    unfolding st2_def by (rule layout_loop_kept)
  have k02: "kinds_kept st st2"
    using k01 k12 by (rule kinds_kept_trans)
  have k03: "kinds_kept st st3"
    using k02 group_add_kept unfolding st3_def by (rule kinds_kept_trans)
  have g2: "is_group st2 (p_group p)"
    using k02 assms(4,5) by (simp add: kinds_kept_def)
  have t3: "is_group st3 tg"
    using k03 assms(6,7) by (simp add: kinds_kept_def)
  have "r < nextRef st1"
    using k01 assms(1) by (simp add: kinds_kept_def)
  then have "kids st2 r = kids st1 r"
    unfolding st2_def using assms(2,3) by (rule layout_loop_kids_other)
  then have k2: "kids st2 r = kids st r"
    by (simp add: st1_def fold_sync_done_kids)
  have "kids st3 r = kids st r @ (if r = p_group p then [p_front p, p_back p] else [])"
    using g2 k2 by (auto simp add: st3_def group_add_kids)
  then show ?thesis
    unfolding res using t3 assms(8) by (auto simp add: group_add_kids)
qed

lemma resume_all_unfold:
  "resume_all opts measured tg (p # ps) st =
     (p_group p # fst (resume_all opts measured tg ps (resume_one opts measured tg p st)),
      snd (resume_all opts measured tg ps (resume_one opts measured tg p st)))"
  by (simp add: split_def Let_def resume_one_def createTextMeshes_resume_def)

lemma resume_all_groups: "fst (resume_all opts measured tg ps st) = map p_group ps"
  by (induction ps arbitrary: st) (simp_all add: resume_all_unfold del: resume_all.simps(2))

lemma resume_all_kept: "kinds_kept st (snd (resume_all opts measured tg ps st))"
proof (induction ps arbitrary: st)
  case Nil
  show ?case by (simp add: kinds_kept_refl)
next
  case (Cons p ps)
  have "kinds_kept st (resume_one opts measured tg p st)"
    by (rule resume_one_kept)
  also have "kinds_kept (resume_one opts measured tg p st)
      (snd (resume_all opts measured tg ps (resume_one opts measured tg p st)))"
    by (rule Cons.IH)
  finally show ?case
    by (simp add: resume_all_unfold del: resume_all.simps)
qed

lemma resume_all_frame:
  assumes "r < nextRef st" and "r \<notin> set (tg # concat (map triple ps))"
  shows "kids (snd (resume_all opts measured tg ps st)) r = kids st r"
  using assms
proof (induction ps arbitrary: st)
  case Nil
  show ?case by simp
next
  case (Cons p ps)
  define st1 where "st1 = fold (sync_done measured) (p_meshes p) st"
  define st2 where "st2 = layout_loop opts (p_meshes p) (p_front p) (p_back p) 0 0 st1"
  define st3 where "st3 = group_add (p_group p) [p_front p, p_back p] st2"
  have res: "resume_one opts measured tg p st = group_add tg [p_group p] st3"
    by (simp add: resume_one_def createTextMeshes_resume_def Let_def layoutTextMeshes_def
        st1_def st2_def st3_def)
  from Cons.prems(2) have r: "r \<noteq> tg" "r \<noteq> p_group p" "r \<noteq> p_front p" "r \<noteq> p_back p"
    "r \<notin> set (tg # concat (map triple ps))"
    by (auto simp add: triple_def[of p])
  have "kinds_kept st st1"
    unfolding st1_def by (rule fold_sync_done_kept)
  then have "r < nextRef st1"
    using Cons.prems(1) by (simp add: kinds_kept_def)
  then have "kids st2 r = kids st1 r"
    unfolding st2_def using r(3,4) by (rule layout_loop_kids_other)
  then have "kids (resume_one opts measured tg p st) r = kids st r"
    unfolding res using r(1,2) by (simp add: group_add_kids st3_def st1_def fold_sync_done_kids)
  moreover have "r < nextRef (resume_one opts measured tg p st)"
    using resume_one_kept[of st opts measured tg p] Cons.prems(1) by (simp add: kinds_kept_def)
  ultimately show ?case
    using Cons.IH[OF _ r(5)] by (simp add: resume_all_unfold del: resume_all.simps)
qed

lemma resume_all_kids:
  assumes "distinct (tg # concat (map triple ps))"
    and "\<forall>r\<in>set (tg # concat (map triple ps)). r < nextRef st \<and> is_group st r"
    and "\<forall>p\<in>set ps. kids st (p_group p) = []"
  shows "kids (snd (resume_all opts measured tg ps st)) tg = kids st tg @ map p_group ps \<and>
         (\<forall>p\<in>set ps. kids (snd (resume_all opts measured tg ps st)) (p_group p)
                        = [p_front p, p_back p])"
  using assms
proof (induction ps arbitrary: st)
  case Nil
  show ?case by simp
next
  case (Cons p ps)
  define st1 where "st1 = resume_one opts measured tg p st"
  define st' where "st' = snd (resume_all opts measured tg ps st1)"
  have res: "snd (resume_all opts measured tg (p # ps) st) = st'"
    by (simp add: resume_all_unfold st1_def st'_def del: resume_all.simps)
  have k: "kinds_kept st st1"
    unfolding st1_def by (rule resume_one_kept)
  from Cons.prems(1) have d: "tg \<noteq> p_group p" "tg \<noteq> p_front p" "tg \<noteq> p_back p"
    "p_group p \<noteq> p_front p" "p_group p \<noteq> p_back p"
    "p_group p \<notin> set (tg # concat (map triple ps))"
    "distinct (tg # concat (map triple ps))"
    by (auto simp add: triple_def[of p])
  from Cons.prems(2) have a: "tg < nextRef st" "is_group st tg" "p_group p < nextRef st"
    "is_group st (p_group p)"
    by (auto simp add: triple_def[of p])
  have one: "kids st1 r = kids st r @ (if r = p_group p then [p_front p, p_back p] else []) @
           (if r = tg then [p_group p] else [])"
    if "r < nextRef st" "r \<noteq> p_front p" "r \<noteq> p_back p" for r
    unfolding st1_def using that a(4,3,2,1) d(1) by (rule resume_one_kids)
  have tg1: "kids st1 tg = kids st tg @ [p_group p]"
    using one[of tg] a d by simp
  have g1: "kids st1 (p_group p) = [p_front p, p_back p]"
    using one[of "p_group p"] a d Cons.prems(3) by simp
  have pre2: "\<forall>r\<in>set (tg # concat (map triple ps)). r < nextRef st1 \<and> is_group st1 r"
  proof
    fix r assume "r \<in> set (tg # concat (map triple ps))"
    with Cons.prems(2) have "r < nextRef st" "is_group st r"
      by auto
    with k show "r < nextRef st1 \<and> is_group st1 r"
      by (auto simp add: kinds_kept_def)
  qed
  have pre3: "\<forall>q\<in>set ps. kids st1 (p_group q) = []"
  proof
    fix q assume q: "q \<in> set ps"
    then have in_q: "set (triple q) \<subseteq> set (concat (map triple ps))"
      by auto
    have "p_group q \<in> set (triple q)"
      by (simp add: triple_def)
    with in_q have m: "p_group q \<in> set (concat (map triple ps))"
      by blast
    with Cons.prems(1) have "p_group q \<noteq> tg" "p_group q \<notin> set (triple p)"
      by auto
    then have ne: "p_group q \<noteq> tg" "p_group q \<noteq> p_group p" "p_group q \<noteq> p_front p"
      "p_group q \<noteq> p_back p"
      by (simp_all add: triple_def[of p])
    from m Cons.prems(2) have "p_group q < nextRef st"
      by auto
    then have "kids st1 (p_group q) = kids st (p_group q)"
      using one[of "p_group q"] ne by simp
    with Cons.prems(3) q show "kids st1 (p_group q) = []"
      by simp
  qed
  from Cons.IH[OF d(7) pre2 pre3]
  have ih: "kids st' tg = kids st1 tg @ map p_group ps"
    "\<forall>q\<in>set ps. kids st' (p_group q) = [p_front q, p_back q]"
    unfolding st'_def by blast+
  have "p_group p < nextRef st1"
    using k a(3) by (simp add: kinds_kept_def)
  then have "kids st' (p_group p) = kids st1 (p_group p)"
    unfolding st'_def using d(6) by (rule resume_all_frame)
  with ih tg1 g1 show ?case
    unfolding res by simp
qed

section \<open>The assembled scene\<close>

lemma nth_concat_uniform:
  assumes "\<forall>x\<in>set xs. length (f x) = m" and "i < length xs" and "j < m"
  shows "concat (map f xs) ! (i * m + j) = f (xs ! i) ! j"
  using assms
proof (induction xs arbitrary: i)
  case Nil
  then show ?case by simp
next
  case (Cons x xs)
  have lx: "length (f x) = m"
    using Cons.prems(1) by simp
  show ?case
  proof (cases i)
    case 0
    then show ?thesis
      using lx Cons.prems(3) by (simp add: nth_append)
  next
    case (Suc i')
    then have "concat (map f (x # xs)) ! (i * m + j) = concat (map f xs) ! (i' * m + j)"
      using lx by (simp add: nth_append)
    also have "\<dots> = f (xs ! i') ! j"
      using Cons.prems Suc by (intro Cons.IH) simp_all
    finally show ?thesis using Suc by simp
  qed
qed

lemma cells_nth:
  assumes "x < n" and "y < n" and "z < n"
  shows "cells n ! ((x * n + y) * n + z) = (x, y, z)"
proof -
  define row where "row = (\<lambda>(x :: nat) (y :: nat). map (\<lambda>z. (x, y, z)) [0..<n])"
  define slab where "slab = (\<lambda>x :: nat. concat (map (row x) [0..<n]))"
  have lrow: "length (row x' y') = n" for x' y'
    by (simp add: row_def)
  have lslab: "length (slab x') = n * n" for x'
    by (simp add: slab_def length_concat comp_def lrow sum_list_triv)
  have "y * n + z < Suc y * n"
    using assms(3) by simp
  moreover have "Suc y * n \<le> n * n"
    using assms(2) by (intro mult_le_mono1) simp
  ultimately have yz: "y * n + z < n * n"
    by (rule less_le_trans)
  have idx: "(x * n + y) * n + z = x * (n * n) + (y * n + z)"
    by (simp add: algebra_simps)
  have "cells n ! ((x * n + y) * n + z) = concat (map slab [0..<n]) ! (x * (n * n) + (y * n + z))"
    by (simp add: cells_def slab_def row_def idx)
  also have "\<dots> = slab ([0..<n] ! x) ! (y * n + z)"
    using assms(1) yz lslab by (intro nth_concat_uniform) simp_all
  also have "\<dots> = concat (map (row x) [0..<n]) ! (y * n + z)"
    using assms(1) by (simp add: slab_def)
  also have "\<dots> = row x ([0..<n] ! y) ! z"
    using assms(2,3) lrow by (intro nth_concat_uniform) simp_all
  also have "\<dots> = (x, y, z)"
    using assms(2,3) by (simp add: row_def)
  finally show ?thesis .
qed

lemma cell_index_bound:
  fixes x y z n :: nat
  assumes "x < n" and "y < n" and "z < n"
  shows "(x * n + y) * n + z < n ^ 3"
proof -
  have "x * n + y < Suc x * n"
    using assms(2) by simp
  moreover have "Suc x * n \<le> n * n"
    using assms(1) by (intro mult_le_mono1) simp
  ultimately have "Suc (x * n + y) \<le> n * n"
    by simp
  then have "Suc (x * n + y) * n \<le> (n * n) * n"
    by (rule mult_le_mono1)
  moreover have "(x * n + y) * n + z < Suc (x * n + y) * n"
    using assms(3) by simp
  ultimately show ?thesis
    by (simp add: power3_eq_cube)
qed

lemma distinct_groups: "distinct (concat (map triple ps)) \<Longrightarrow> distinct (map p_group ps)"
proof (induction ps)
  case Nil
  show ?case by simp
next
  case (Cons p ps)
  have in_t: "p_group q \<in> set (triple q)" for q
    by (simp add: triple_def)
  have "p_group p \<noteq> p_group q" if "q \<in> set ps" for q
  proof
    assume eq: "p_group p = p_group q"
    have "p_group q \<in> set (concat (map triple ps))"
      using that in_t[of q] by auto
    moreover have "p_group p \<in> set (triple p)"
      by (rule in_t)
    ultimately show False
      using Cons.prems eq by auto
  qed
  moreover have "distinct (map p_group ps)"
    using Cons by simp
  ultimately show ?case
    by auto
qed

lemma assembly_structure:
  assumes "createCubeOfPlanes opts rnd measured st = (gs, st')"
  shows "scene st' = scene st @ [nextRef st, Suc (nextRef st)]"
    and "\<exists>im. plane_of st' (nextRef st) = Some im \<and> inst_count im = gridSize opts ^ 3 \<and>
           dom (instanceMatrix im) = {..<gridSize opts ^ 3} \<and>
           (\<forall>k<gridSize opts ^ 3. \<exists>m. instanceMatrix im k = Some m \<and>
               jittered opts rnd (cells (gridSize opts) ! k) m)"
    and "matrix_calls st' = matrix_calls st + gridSize opts ^ 3"
    and "length gs = gridSize opts ^ 3" and "distinct gs"
    and "kids st' (Suc (nextRef st)) = gs"
    and "\<forall>g\<in>set gs. \<exists>f b. kids st' g = [f, b] \<and> f \<noteq> b \<and> is_group st' f \<and> is_group st' b"
    and "nextRef st \<in> set (interactableMeshes st')"
proof -
  define N where "N = gridSize opts ^ 3"
  obtain pm tg ps st1 where b: "cube_begin opts rnd st = (pm, tg, ps, st1)"
    by (cases "cube_begin opts rnd st") auto
  note bi = cube_begin_inv[OF b]
  have "fst (resume_all opts measured tg ps st1) = gs"
    "snd (resume_all opts measured tg ps st1) = st'"
    using assms by (simp_all add: createCubeOfPlanes_def b)
  then have res: "gs = map p_group ps" "st' = snd (resume_all opts measured tg ps st1)"
    by (simp_all add: resume_all_groups)
  from bi(3) obtain im where inv: "length ps = N" "pm < nextRef st1" "tg < nextRef st1"
    "matrix_calls st1 = matrix_calls st + N"
    "plane_of st1 pm = Some im" "inst_count im = N" "dom (instanceMatrix im) = {..<N}"
    "\<forall>k<N. \<exists>m. instanceMatrix im k = Some m \<and> jittered opts rnd (cells (gridSize opts) ! k) m"
    and d: "distinct (tg # concat (map triple ps))"
    and g: "\<forall>r\<in>set (tg # concat (map triple ps)).
              r < nextRef st1 \<and> is_group st1 r \<and> kids st1 r = []"
    unfolding cube_inv_def N_def by auto
  have k: "kinds_kept st1 st'"
    unfolding res by (rule resume_all_kept)
  have g': "\<forall>r\<in>set (tg # concat (map triple ps)). r < nextRef st1 \<and> is_group st1 r"
    using g by blast
  have e: "\<forall>p\<in>set ps. kids st1 (p_group p) = []"
  proof
    fix p assume "p \<in> set ps"
    then have "p_group p \<in> set (tg # concat (map triple ps))"
      by (auto simp add: triple_def)
    with g show "kids st1 (p_group p) = []"
      by blast
  qed
  from resume_all_kids[OF d g' e, of opts measured]
  have kk: "kids st' tg = kids st1 tg @ map p_group ps"
    "\<forall>p\<in>set ps. kids st' (p_group p) = [p_front p, p_back p]"
    unfolding res by blast+
  show "scene st' = scene st @ [nextRef st, Suc (nextRef st)]"
    using k bi(1,2,5) by (simp add: kinds_kept_def)
  have "plane_of st' pm = Some im"
    using k inv(2,5) by (simp add: kinds_kept_def)
  then show "\<exists>im. plane_of st' (nextRef st) = Some im \<and> inst_count im = gridSize opts ^ 3 \<and>
           dom (instanceMatrix im) = {..<gridSize opts ^ 3} \<and>
           (\<forall>k<gridSize opts ^ 3. \<exists>m. instanceMatrix im k = Some m \<and>
               jittered opts rnd (cells (gridSize opts) ! k) m)"
    using inv(6-8) unfolding bi(1) N_def by blast
  show "matrix_calls st' = matrix_calls st + gridSize opts ^ 3"
    using k inv(4) by (simp add: kinds_kept_def N_def)
  show "length gs = gridSize opts ^ 3"
    using inv(1) by (simp add: res N_def)
  show "distinct gs"
    unfolding res using d by (simp add: distinct_groups)
  have "kids st1 tg = []"
    using g by simp
  then show "kids st' (Suc (nextRef st)) = gs"
    using kk(1) by (simp add: res(1) bi(2))
  show "\<forall>g\<in>set gs. \<exists>f b. kids st' g = [f, b] \<and> f \<noteq> b \<and> is_group st' f \<and> is_group st' b"
  proof
    fix r assume "r \<in> set gs"
    then obtain p where p: "p \<in> set ps" "r = p_group p"
      unfolding res by auto
    then have in_p: "p_front p \<in> set (tg # concat (map triple ps))"
      "p_back p \<in> set (tg # concat (map triple ps))"
      by (auto simp add: triple_def)
    with g have "p_front p < nextRef st1" "is_group st1 (p_front p)"
      "p_back p < nextRef st1" "is_group st1 (p_back p)"
      by blast+
    with k have gr: "is_group st' (p_front p)" "is_group st' (p_back p)"
      by (simp_all add: kinds_kept_def)
    from p(1) have "distinct (triple p)"
      using d by (auto simp add: distinct_concat_iff)
    then have "p_front p \<noteq> p_back p"
      by (simp add: triple_def)
    with kk(2) p gr show "\<exists>f b. kids st' r = [f, b] \<and> f \<noteq> b \<and> is_group st' f \<and> is_group st' b"
      by blast
  qed
  show "nextRef st \<in> set (interactableMeshes st')"
    using k bi(1,4) by (auto simp add: kinds_kept_def)
qed

section \<open>Concrete scenes\<close>

lemmas assembly_eval =
  assembled_def createCubeOfPlanes_def cube_begin_def cube_loops_def for_loop_fold cell_body_def
  cell_position_def math_random_def setMatrixAt_def half_source_def
  createTextMeshes_begin_def createTextMeshes_resume_def new_group_def alloc_def
  initial_app_def generateTextMeshes_def generate_mesh_def new_text_def Let_def clone_def
  sync_call_def sync_done_def small_options_def flat_options_def red_options_def
  empty_options_def

lemma unit_half_source: "unit_source half_source"
  by (simp add: unit_source_def half_source_def)

lemma assembled_small:
  "fst (assembled small_options) = [2]"
  "interactableMeshes (snd (assembled small_options)) = [0, 5, 7, 6, 8]"
  "kids (snd (assembled small_options)) (Suc 0) = [2]"
  "kids (snd (assembled small_options)) 2 = [3, 4]"
  "kids (snd (assembled small_options)) 3 = [5, 6]"
  "has_text (snd (assembled small_options)) (Obj 0) = False"
  "has_text (snd (assembled small_options)) (Obj 5) = True"
  "map fst (textMeshCache (snd (assembled small_options))) = [''Hi'', ''there'']"
  by (simp_all add: assembly_eval layout_eval has_text_def
      cong: let_weak_cong prod.case_cong_weak)

lemma assembled_red:
  "carries (snd (assembled red_options)) ''#ff0000'' 5"
  "carries (snd (assembled red_options)) ''#ff0000'' 6"
  by (simp_all add: assembly_eval layout_eval carries_def
      cong: let_weak_cong prod.case_cong_weak)

lemma assembled_flat:
  "plane_of (snd (assembled flat_options)) 0 =
     Some \<lparr>inst_count = 1, instanceMatrix = [0 \<mapsto> Matrix4 (Euler pi pi pi) (0, 0, 0)]\<rparr>"
  by (simp add: assembly_eval layout_eval plane_of_def
      cong: let_weak_cong prod.case_cong_weak)

lemma assembled_empty:
  "textMeshCache (snd (assembled empty_options)) = []"
  "fst (assembled empty_options) = []"
  by (simp_all add: assembly_eval layout_eval cong: let_weak_cong prod.case_cong_weak)

lemma reachable_assembled: "reachable opts (snd (assembled opts))"
  unfolding assembled_def using unit_half_source by (rule reachable.assembled)

section \<open>Claims about the assembly\<close>

text \<open>
  C1: scene assembly on a grid of size \<open>G\<close> makes \<open>G ^ 3\<close> calls of \<^verbatim>\<open>setMatrixAt\<close>, and
  the instance buffer of the plane mesh, the first object it allocates, then holds a matrix
  at each of the \<open>G ^ 3\<close> indices, the one of the cell \<open>(x, y, z)\<close> at the index
  \<open>(x * G + y) * G + z\<close>. The promise resolves to \<open>G ^ 3\<close> distinct groups; they are the
  children of the text group, the second object allocated; each has exactly two children,
  two distinct groups: the front and the back sub-group.
\<close>

theorem cube_has_cubed_planes_and_groups:
  assumes "createCubeOfPlanes opts rnd measured st = (groups, st')"
  shows "scene st' = scene st @ [nextRef st, Suc (nextRef st)] \<and>
         (\<exists>im. plane_of st' (nextRef st) = Some im \<and>
               dom (instanceMatrix im) = {..<gridSize opts ^ 3} \<and>
               (\<forall>x<gridSize opts. \<forall>y<gridSize opts. \<forall>z<gridSize opts.
                  \<exists>m. instanceMatrix im ((x * gridSize opts + y) * gridSize opts + z) = Some m \<and>
                      jittered opts rnd (x, y, z) m)) \<and>
         matrix_calls st' = matrix_calls st + gridSize opts ^ 3 \<and>
         length groups = gridSize opts ^ 3 \<and> distinct groups \<and>
         kids st' (Suc (nextRef st)) = groups \<and>
         (\<forall>g\<in>set groups.
            \<exists>f b. kids st' g = [f, b] \<and> f \<noteq> b \<and> is_group st' f \<and> is_group st' b)"
proof -
  note s = assembly_structure[OF assms]
  from s(2) obtain im where im: "plane_of st' (nextRef st) = Some im"
    "dom (instanceMatrix im) = {..<gridSize opts ^ 3}"
    "\<forall>k<gridSize opts ^ 3. \<exists>m. instanceMatrix im k = Some m \<and>
        jittered opts rnd (cells (gridSize opts) ! k) m"
    by blast
  have "\<exists>m. instanceMatrix im ((x * gridSize opts + y) * gridSize opts + z) = Some m \<and>
            jittered opts rnd (x, y, z) m"
    if "x < gridSize opts" "y < gridSize opts" "z < gridSize opts" for x y z
    using im(3) cell_index_bound[OF that] cells_nth[OF that] by metis
  with im(1,2) s(1,3-7) show ?thesis by blast
qed

theorem cube_has_cubed_planes_and_groups_witness:
  "createCubeOfPlanes small_options half_source measure_06 initial_app =
     (fst (assembled small_options), snd (assembled small_options)) \<and>
   fst (assembled small_options) = [2] \<and>
   kids (snd (assembled small_options)) 2 = [3, 4] \<and>
   scene (snd (assembled small_options)) = [0, 1] \<and>
   (\<exists>im. plane_of (snd (assembled small_options)) 0 = Some im \<and>
         dom (instanceMatrix im) = {..<1}) \<and>
   matrix_calls (snd (assembled small_options)) = 1 \<and>
   kids (snd (assembled small_options)) 1 = fst (assembled small_options)"
proof -
  have h: "createCubeOfPlanes small_options half_source measure_06 initial_app =
     (fst (assembled small_options), snd (assembled small_options))"
    by (simp add: assembled_def)
  have g: "gridSize small_options ^ 3 = 1" "nextRef initial_app = 0" "scene initial_app = []"
    "matrix_calls initial_app = 0"
    by (simp_all add: small_options_def initial_app_def matrix_calls_def)
  show ?thesis
    using cube_has_cubed_planes_and_groups[OF h] h
    by (simp add: g assembled_small) blast
qed

text \<open>
  C8, as stated, for every cell size \<open>c\<close>: a jitter in \<open>[0, c / 2)\<close>. With a grid offset of
  \<open>- rectWidth\<close> the cell size is 0: the cell is placed, at the lattice point itself, and the
  interval \<open>[0, 0)\<close> has no jitter in it.
\<close>

theorem no_jitter_for_flat_cells:
  "plane_of (snd (assembled flat_options)) 0 =
     Some \<lparr>inst_count = 1, instanceMatrix = [0 \<mapsto> Matrix4 (Euler pi pi pi) (0, 0, 0)]\<rparr> \<and>
   \<not> (\<exists>j. 0 \<le> j \<and> j < (rectWidth flat_options + gridOffset flat_options) / 2)"
  by (simp add: assembled_flat) (simp add: flat_options_def small_options_def)

text \<open>
  C8, amended: when the cell size \<open>c = rectWidth + gridOffset\<close> is positive and
  \<^verbatim>\<open>Math.random\<close> gives values in \<open>[0, 1)\<close>, every lattice cell \<open>(x, y, z)\<close> has in the
  instance buffer, at its index \<open>(x * G + y) * G + z\<close>, a matrix with the position
  \<open>(x * c + j, y * c + j, z * c + j)\<close> and the Euler angles \<open>(\<theta>, \<theta>, \<theta>)\<close>, for a jitter
  \<open>j\<close> in \<open>[0, c / 2)\<close> and an angle \<open>\<theta>\<close> in \<open>[0, 2 * pi)\<close>.
\<close>

theorem cell_is_jittered_lattice_point:
  assumes "0 < rectWidth opts + gridOffset opts" and "unit_source rnd"
    and "createCubeOfPlanes opts rnd measured st = (groups, st')"
    and "x < gridSize opts" and "y < gridSize opts" and "z < gridSize opts"
  shows "\<exists>im j \<theta>.
           plane_of st' (nextRef st) = Some im \<and>
           0 \<le> j \<and> j < (rectWidth opts + gridOffset opts) / 2 \<and> 0 \<le> \<theta> \<and> \<theta> < 2 * pi \<and>
           instanceMatrix im ((x * gridSize opts + y) * gridSize opts + z) =
             Some (Matrix4 (Euler \<theta> \<theta> \<theta>)
                     (real x * (rectWidth opts + gridOffset opts) + j,
                      real y * (rectWidth opts + gridOffset opts) + j,
                      real z * (rectWidth opts + gridOffset opts) + j))"
proof -
  define c where "c = rectWidth opts + gridOffset opts"
  from assembly_structure(2)[OF assms(3)] obtain im where
    im: "plane_of st' (nextRef st) = Some im"
    "\<forall>k<gridSize opts ^ 3. \<exists>m. instanceMatrix im k = Some m \<and>
        jittered opts rnd (cells (gridSize opts) ! k) m"
    by blast
  define k where "k = (x * gridSize opts + y) * gridSize opts + z"
  have "k < gridSize opts ^ 3" "cells (gridSize opts) ! k = (x, y, z)"
    unfolding k_def using assms(4-6) by (rule cell_index_bound cells_nth)+
  with im(2) obtain m where m: "instanceMatrix im k = Some m" "jittered opts rnd (x, y, z) m"
    by metis
  from m(2) obtain a b where ab:
    "m = Matrix4 (Euler (rnd b * pi * 2) (rnd b * pi * 2) (rnd b * pi * 2))
           (cell_position opts x y z (rnd a * c * 0.5))"
    unfolding jittered_def c_def by auto
  define j where "j = rnd a * c * 0.5"
  define t where "t = rnd b * pi * 2"
  have ra: "0 \<le> rnd a" "rnd a < 1" and rb: "0 \<le> rnd b" "rnd b < 1"
    using assms(2) by (simp_all add: unit_source_def)
  have "0 \<le> j"
    using ra(1) assms(1) by (simp add: j_def c_def)
  moreover have "j < c / 2"
  proof -
    have "rnd a * c < 1 * c"
      using ra(2) assms(1) unfolding c_def by (intro mult_strict_right_mono)
    then show ?thesis by (simp add: j_def)
  qed
  moreover have "0 \<le> t"
    using rb(1) by (simp add: t_def)
  moreover have "t < 2 * pi"
  proof -
    have "rnd b * pi < 1 * pi"
      using rb(2) by (intro mult_strict_right_mono) simp_all
    then show ?thesis by (simp add: t_def)
  qed
  moreover have "instanceMatrix im k =
      Some (Matrix4 (Euler t t t) (real x * c + j, real y * c + j, real z * c + j))"
    using m(1) by (simp add: ab cell_position_def Let_def j_def t_def c_def)
  ultimately show ?thesis
    using im(1) unfolding k_def c_def by blast
qed

theorem cell_is_jittered_lattice_point_witness:
  "0 < rectWidth small_options + gridOffset small_options \<and> unit_source half_source \<and>
   createCubeOfPlanes small_options half_source measure_06 initial_app =
     (fst (assembled small_options), snd (assembled small_options)) \<and>
   0 < gridSize small_options \<and>
   (\<exists>im j \<theta>.
      plane_of (snd (assembled small_options)) 0 = Some im \<and>
      0 \<le> j \<and> j < 3 \<and> 0 \<le> \<theta> \<and> \<theta> < 2 * pi \<and>
      instanceMatrix im 0 = Some (Matrix4 (Euler \<theta> \<theta> \<theta>) (j, j, j)))"
proof -
  have h: "0 < rectWidth small_options + gridOffset small_options" "unit_source half_source"
    "createCubeOfPlanes small_options half_source measure_06 initial_app =
       (fst (assembled small_options), snd (assembled small_options))"
    "0 < gridSize small_options"
    by (simp_all add: small_options_def unit_half_source assembled_def)
  have g: "rectWidth small_options + gridOffset small_options = 6" "nextRef initial_app = 0"
    by (simp_all add: small_options_def initial_app_def)
  show ?thesis
    using cell_is_jittered_lattice_point[OF h(1-3) h(4) h(4) h(4)] h
    by (simp add: g)
qed

section \<open>Claims about the interaction loop\<close>

lemma has_text_process:
  "has_text (processIntersections opts intersects st) v = has_text st v"
proof (cases "highlightedTextMesh st = hovered_of intersects")
  case True
  then show ?thesis by (simp add: processIntersections_def)
next
  case False
  have "has_text ((applyHighlight (hovered_of intersects) (highlightedTextColor opts)
      (resetHighlight opts st))\<lparr>highlightedTextMesh := hovered_of intersects\<rparr>) v =
      has_text (applyHighlight (hovered_of intersects) (highlightedTextColor opts)
      (resetHighlight opts st)) v"
    by (rule has_text_heap_cong) simp
  with False show ?thesis
    by (simp add: processIntersections_def Let_def has_text_apply has_text_reset)
qed

text \<open>
  C2, as stated: the highlighted mesh always has a text payload. The plane mesh is
  interactable too (line 199) and has no text; when the pointer is over a plane and no
  word is in front of it, the plane mesh becomes the highlighted reference.
\<close>

theorem highlighted_plane_has_no_text:
  "reachable small_options (processIntersections small_options [0] (snd (assembled small_options))) \<and>
   highlightedTextMesh (processIntersections small_options [0] (snd (assembled small_options)))
     = Obj 0 \<and>
   0 \<in> set (interactableMeshes
              (processIntersections small_options [0] (snd (assembled small_options)))) \<and>
   \<not> has_text (processIntersections small_options [0] (snd (assembled small_options))) (Obj 0)"
proof -
  have "set [0] \<subseteq> set (interactableMeshes (snd (assembled small_options)))"
    by (simp add: assembled_small)
  with reachable_assembled
  have "reachable small_options
      (processIntersections small_options [0] (snd (assembled small_options)))"
    by (rule reachable.frame)
  then show ?thesis
    by (simp add: processIntersections_highlighted processIntersections_registry
        has_text_process assembled_small hovered_of_def)
qed

text \<open>
  C2, amended: in every reachable state of the interaction loop, if the highlighted
  reference is an object then it is a member of the interactable registry. (Whether it has
  a text is what \<^verbatim>\<open>#resetHighlight\<close> and \<^verbatim>\<open>#applyHighlight\<close> test.)
\<close>

theorem highlighted_is_interactable:
  assumes "reachable opts st" and "highlightedTextMesh st = Obj r"
  shows "r \<in> set (interactableMeshes st)"
  using assms by (rule reachable_registered)

theorem highlighted_is_interactable_witness:
  "reachable small_options
     (processIntersections small_options [5, 0] (snd (assembled small_options))) \<and>
   highlightedTextMesh (processIntersections small_options [5, 0] (snd (assembled small_options)))
     = Obj 5 \<and>
   5 \<in> set (interactableMeshes
              (processIntersections small_options [5, 0] (snd (assembled small_options))))"
proof -
  have "set [5, 0] \<subseteq> set (interactableMeshes (snd (assembled small_options)))"
    by (simp add: assembled_small)
  with reachable_assembled
  have r: "reachable small_options
      (processIntersections small_options [5, 0] (snd (assembled small_options)))"
    by (rule reachable.frame)
  have h: "highlightedTextMesh
      (processIntersections small_options [5, 0] (snd (assembled small_options))) = Obj 5"
    by (simp add: processIntersections_highlighted hovered_of_def)
  show ?thesis
    using highlighted_is_interactable[OF r h] r h by simp
qed

text \<open>
  C6: a frame whose nearest hit is the highlighted reference leaves the whole state as it
  is: no colour is set, no sync is called, the cursor is not touched, nothing is added to
  the trace of calls. Hence running a frame twice on the same raycast result gives what
  running it once gives.
\<close>

theorem hover_transition_is_idempotent:
  "(hovered_of intersects = highlightedTextMesh st \<longrightarrow>
      processIntersections opts intersects st = st) \<and>
   processIntersections opts intersects (processIntersections opts intersects st) =
     processIntersections opts intersects st"
  by (simp add: processIntersections_def Let_def)

theorem hover_transition_is_idempotent_witness:
  "hovered_of [5, 0] =
     highlightedTextMesh (processIntersections small_options [5, 0] (snd (assembled small_options))) \<and>
   processIntersections small_options [5, 0]
     (processIntersections small_options [5, 0] (snd (assembled small_options))) =
   processIntersections small_options [5, 0] (snd (assembled small_options))"
  using hover_transition_is_idempotent
    [of "[5, 0]" "processIntersections small_options [5, 0] (snd (assembled small_options))"
      small_options]
  by (simp add: processIntersections_highlighted)

text \<open>
  C7, as stated: no two meshes ever carry the highlighted colour. Nothing keeps the two
  colours of the options apart; when they are the same string every text mesh carries the
  highlighted colour from its construction on.
\<close>

theorem two_meshes_carry_highlight_colour:
  "reachable red_options (snd (assembled red_options)) \<and>
   carries (snd (assembled red_options)) (highlightedTextColor red_options) 5 \<and>
   carries (snd (assembled red_options)) (highlightedTextColor red_options) 6 \<and>
   (5 :: ref) \<noteq> 6"
  using reachable_assembled[of red_options] assembled_red
  by (simp add: red_options_def small_options_def)

text \<open>
  C7, amended: on a hover transition the calls are, in this order: the default colour set
  on the previously highlighted mesh and its sync (when it has a text), the cursor reset,
  then the highlight colour set on the new target, its sync and the pointer cursor (when it
  has a text). When the highlight colour differs from the default text colour, then in
  every reachable state no two meshes carry the highlight colour, and after the reset,
  before the new highlight is applied, no mesh carries it.
\<close>

theorem reset_precedes_new_highlight:
  assumes "textColor opts \<noteq> highlightedTextColor opts" and "reachable opts st"
  shows "(\<forall>intersects. highlightedTextMesh st \<noteq> hovered_of intersects \<longrightarrow>
            trace (processIntersections opts intersects st) =
              trace st @ color_events st (highlightedTextMesh st) (textColor opts) @
              [SetCursor ''auto''] @
              color_events st (hovered_of intersects) (highlightedTextColor opts) @
              (if has_text st (hovered_of intersects) then [SetCursor ''pointer''] else [])) \<and>
         (\<forall>r r'. carries st (highlightedTextColor opts) r \<and>
                  carries st (highlightedTextColor opts) r' \<longrightarrow> r = r') \<and>
         (\<forall>r. \<not> carries (resetHighlight opts st) (highlightedTextColor opts) r)"
proof -
  have inv: "highlight_inv opts st"
    using assms by (rule reachable_highlight_inv)
  have "r = r'" if "carries st (highlightedTextColor opts) r"
    "carries st (highlightedTextColor opts) r'" for r r'
  proof -
    from inv that have "highlightedTextMesh st = Obj r" "highlightedTextMesh st = Obj r'"
      unfolding highlight_inv_def by blast+
    then show ?thesis by simp
  qed
  moreover have "\<not> carries (resetHighlight opts st) (highlightedTextColor opts) r" for r
    using assms(1) inv by (rule reset_clears)
  ultimately show ?thesis
    using processIntersections_trace by blast
qed

theorem reset_precedes_new_highlight_witness:
  "textColor small_options \<noteq> highlightedTextColor small_options \<and>
   reachable small_options
     (processIntersections small_options [5, 0] (snd (assembled small_options))) \<and>
   trace (processIntersections small_options [6]
            (processIntersections small_options [5, 0] (snd (assembled small_options)))) =
     trace (processIntersections small_options [5, 0] (snd (assembled small_options))) @
     [SetColor 5 ''#121212'', Sync 5, SetCursor ''auto'',
      SetColor 6 ''#ff0000'', Sync 6, SetCursor ''pointer'']"
proof -
  define st where
    "st = processIntersections small_options [5, 0] (snd (assembled small_options))"
  have c: "textColor small_options \<noteq> highlightedTextColor small_options"
    by (simp add: small_options_def)
  have "set [5, 0] \<subseteq> set (interactableMeshes (snd (assembled small_options)))"
    by (simp add: assembled_small)
  with reachable_assembled have r: "reachable small_options st"
    unfolding st_def by (rule reachable.frame)
  have h: "highlightedTextMesh st = Obj 5" "hovered_of [6] = Obj 6"
    by (simp_all add: st_def processIntersections_highlighted hovered_of_def)
  have t: "has_text st (Obj 5)" "has_text st (Obj 6)"
    by (simp_all add: st_def has_text_process)
      (simp_all add: assembly_eval layout_eval has_text_def
        cong: let_weak_cong prod.case_cong_weak)
  have o: "textColor small_options = ''#121212''" "highlightedTextColor small_options = ''#ff0000''"
    by (simp_all add: small_options_def)
  show ?thesis
    using reset_precedes_new_highlight[OF c r, THEN conjunct1, rule_format, of "[6]"] c r
    unfolding st_def[symmetric]
    by (simp add: h t color_events_def o)
qed

section \<open>Claims about the cache\<close>

lemma one_entry:
  "distinct (map fst es) \<Longrightarrow> w \<in> set (map fst es) \<Longrightarrow> length (filter (\<lambda>e. fst e = w) es) = 1"
proof (induction es)
  case Nil
  then show ?case by simp
next
  case (Cons e es)
  show ?case
  proof (cases "fst e = w")
    case True
    with Cons.prems have "w \<notin> set (map fst es)"
      by auto
    then have "filter (\<lambda>e. fst e = w) es = []"
      by (auto simp add: filter_empty_conv)
    with True show ?thesis by simp
  next
    case False
    with Cons show ?thesis by auto
  qed
qed

text \<open>
  C5, as stated, for every grid size: with a grid of size 0 no cell is assembled,
  \<^verbatim>\<open>#generateTextMeshes\<close> is never called, and the cache has no entry for any word of the
  text.
\<close>

theorem empty_grid_leaves_cache_empty:
  "''Hi'' \<in> set (split_space (textContent empty_options)) \<and>
   textMeshCache (snd (assembled empty_options)) = [] \<and>
   length (filter (\<lambda>e. fst e = ''Hi'') (textMeshCache (snd (assembled empty_options)))) \<noteq> 1"
  by (simp add: assembled_empty) (simp add: empty_options_def small_options_def)

text \<open>
  C5, amended: after the assembly of a scene with at least one cell, started with an empty
  cache, the cache has exactly one entry for every word of the text split at the space
  character, and no other entry, however many cells there are and however often the word
  occurs; as many text meshes were constructed as there are distinct words. A call of the
  callback for a word that has an entry returns a clone of that entry and leaves the cache
  as it is; for a word without an entry it constructs a mesh and appends the entry.
\<close>

theorem cache_has_one_entry_per_word:
  assumes "0 < gridSize opts"
  shows "(\<forall>w\<in>set (split_space (textContent opts)).
            length (filter (\<lambda>e. fst e = w)
                      (textMeshCache (snd (createCubeOfPlanes opts rnd measured initial_app))))
              = 1) \<and>
         cache_keys (snd (createCubeOfPlanes opts rnd measured initial_app))
           = set (split_space (textContent opts)) \<and>
         length (filter is_construct
                   (trace (snd (createCubeOfPlanes opts rnd measured initial_app))))
           = card (set (split_space (textContent opts))) \<and>
         (\<forall>s w c. map_of (textMeshCache s) w = Some c \<longrightarrow>
            generate_mesh opts w s = clone c s \<and>
            textMeshCache (snd (generate_mesh opts w s)) = textMeshCache s) \<and>
         (\<forall>s w. map_of (textMeshCache s) w = None \<longrightarrow>
            fst (generate_mesh opts w s) = nextRef s \<and>
            textMeshCache (snd (generate_mesh opts w s)) = textMeshCache s @ [(w, nextRef s)] \<and>
            trace (snd (generate_mesh opts w s)) = trace s @ [Construct (nextRef s)])"
proof -
  define st' where "st' = snd (createCubeOfPlanes opts rnd measured initial_app)"
  have inv: "cache_inv st'" and sub: "cache_keys st' \<subseteq> set (split_space (textContent opts))"
    unfolding st'_def by (rule assembled_facts)+
  have "cache_full opts st'"
    unfolding st'_def using assms by (rule createCubeOfPlanes_full)
  with sub have keys: "cache_keys st' = set (split_space (textContent opts))"
    by (auto simp add: cache_full_def)
  have d: "distinct (map fst (textMeshCache st'))"
    and n: "length (filter is_construct (trace st')) = length (textMeshCache st')"
    using inv by (simp_all add: cache_inv_def)
  have one: "length (filter (\<lambda>e. fst e = w) (textMeshCache st')) = 1"
    if "w \<in> set (split_space (textContent opts))" for w
    using d that keys by (intro one_entry) (simp_all add: cache_keys_def)
  have "card (set (map fst (textMeshCache st'))) = length (map fst (textMeshCache st'))"
    using d by (rule distinct_card)
  then have "card (set (split_space (textContent opts))) = length (map fst (textMeshCache st'))"
    unfolding keys[symmetric] cache_keys_def .
  with n have cnt: "length (filter is_construct (trace st')) =
      card (set (split_space (textContent opts)))"
    by simp
  have hit: "generate_mesh opts w s = clone c s \<and>
      textMeshCache (snd (generate_mesh opts w s)) = textMeshCache s"
    if "map_of (textMeshCache s) w = Some c" for s w c
    using that by (simp add: generate_mesh_def clone_simps)
  have miss: "fst (generate_mesh opts w s) = nextRef s \<and>
      textMeshCache (snd (generate_mesh opts w s)) = textMeshCache s @ [(w, nextRef s)] \<and>
      trace (snd (generate_mesh opts w s)) = trace s @ [Construct (nextRef s)]"
    if "map_of (textMeshCache s) w = None" for s w
  proof -
    from that have "w \<notin> set (map fst (textMeshCache s))"
      by (simp add: map_of_eq_None_iff)
    then show ?thesis
      using that by (simp add: generate_mesh_def new_text_def alloc_def Let_def cache_set_new)
  qed
  show ?thesis
    unfolding st'_def[symmetric] using one keys cnt hit miss by blast
qed

theorem cache_has_one_entry_per_word_witness:
  "0 < gridSize small_options \<and>
   map fst (textMeshCache (snd (assembled small_options))) = [''Hi'', ''there''] \<and>
   cache_keys (snd (assembled small_options)) = {''Hi'', ''there''} \<and>
   length (filter is_construct (trace (snd (assembled small_options)))) = 2"
proof -
  have g: "0 < gridSize small_options"
    by (simp add: small_options_def)
  have w: "split_space (textContent small_options) = [''Hi'', ''there'']"
    by (simp add: small_options_def)
  have c: "card {''Hi'', ''there''} = 2"
    by simp
  show ?thesis
    using cache_has_one_entry_per_word[OF g, of half_source measure_06] g
    unfolding assembled_def[symmetric] w
    by (simp add: assembled_small c)
qed

section \<open>One cell from its words to its layout\<close>

lemma clone_obj_text [simp]: "obj_is_text (clone_obj ob) = obj_is_text ob"
  by (cases ob) simp_all














lemma cache_ok_heap_cong:
  "heap st' = heap st \<Longrightarrow> nextRef st' = nextRef st \<Longrightarrow> textMeshCache st' = textMeshCache st \<Longrightarrow>
   cache_ok st' = cache_ok st"
  by (simp add: cache_ok_def is_text_def)









section \<open>Claims about the identity of the cached mesh\<close>




end
